theory Spec2Isabelle
  imports Complex_Main
begin

section \<open>Strings\<close>

text \<open>
  Python strings are modelled as \<^typ>\<open>string\<close>; a \<^typ>\<open>char\<close> stands for one code
  point below 256. \<open>isspace\<close> is Python's \<open>str.isspace\<close> on that range: the
  characters that \<open>str.strip()\<close> without arguments removes.
\<close>

definition newline :: char where
  "newline = CHR 0x0A"

definition pipe :: char where
  "pipe = CHR ''|''"

definition isspace :: "char \<Rightarrow> bool" where
  "isspace c = (let n = (of_char c :: nat) in
     (9 \<le> n \<and> n \<le> 13) \<or> (28 \<le> n \<and> n \<le> 32) \<or> n = 133 \<or> n = 160)"

definition lstrip :: "string \<Rightarrow> string" where
  "lstrip s = dropWhile isspace s"

definition rstrip :: "string \<Rightarrow> string" where
  "rstrip s = rev (dropWhile isspace (rev s))"

definition strip :: "string \<Rightarrow> string" where
  "strip s = rstrip (lstrip s)"

text \<open>\<open>s.split(sep)\<close> for a one-character separator: \<open>n\<close> separators give \<open>n + 1\<close>
  pieces, and the empty string gives one empty piece.\<close>

fun str_split :: "char \<Rightarrow> string \<Rightarrow> string list" where
  "str_split sep [] = [[]]"
| "str_split sep (c # cs) =
     (if c = sep then [] # str_split sep cs
      else (case str_split sep cs of
              [] \<Rightarrow> [[c]]
            | w # ws \<Rightarrow> (c # w) # ws))"

definition startswith :: "string \<Rightarrow> char \<Rightarrow> bool" where
  "startswith s c = (case s of [] \<Rightarrow> False | x # _ \<Rightarrow> x = c)"

definition endswith :: "string \<Rightarrow> char \<Rightarrow> bool" where
  "endswith s c = (case rev s of [] \<Rightarrow> False | x # _ \<Rightarrow> x = c)"

section \<open>The markdown table parser\<close>

text \<open>\<open>parse_markdown_table_from_text\<close>: the loop over the lines is \<open>parse_lines\<close>, its
  local variables are the fields of \<open>parser_state\<close>, and \<open>break\<close> returns the state.\<close>

record parser_state =
  table_started :: bool
  table_data :: "string list list"
  header_parsed :: bool
  column_count :: nat

definition initial_state :: parser_state where
  "initial_state =
     \<lparr>table_started = False, table_data = [], header_parsed = False, column_count = 0\<rparr>"

definition is_table_line :: "string \<Rightarrow> bool" where
  "is_table_line stripped_line = (startswith stripped_line pipe \<and> endswith stripped_line pipe)"

text \<open>\<open>[cell.strip() for cell in stripped_line[1:-1].split('|')]\<close>\<close>

definition cells_of :: "string \<Rightarrow> string list" where
  "cells_of stripped_line = map strip (str_split pipe (butlast (tl stripped_line)))"

text \<open>\<open>all(all(c in '-: ' for c in cell) and cell for cell in cells)\<close>\<close>

definition is_separator :: "string list \<Rightarrow> bool" where
  "is_separator cells =
     list_all (\<lambda>cell. list_all (\<lambda>c. c \<in> set ''-: '') cell \<and> cell \<noteq> []) cells"

fun parse_lines :: "string list \<Rightarrow> parser_state \<Rightarrow> parser_state" where
  "parse_lines [] st = st"
| "parse_lines (line # rest) st =
     (let stripped_line = strip line in
      if is_table_line stripped_line then
        (let st1 = st\<lparr>table_started := True\<rparr>;
             cells = cells_of stripped_line in
         if \<not> header_parsed st1 then
           parse_lines rest
             (st1\<lparr>table_data := table_data st1 @ [cells],
                  header_parsed := True,
                  column_count := length cells\<rparr>)
         else if length cells = column_count st1 \<and> is_separator cells then
           parse_lines rest st1
         else
           parse_lines rest (st1\<lparr>table_data := table_data st1 @ [cells]\<rparr>))
      else if table_started st then st
      else parse_lines rest st)"

definition emitted_rows :: "string \<Rightarrow> string list list" where
  "emitted_rows markdown_text =
     table_data (parse_lines (str_split newline (strip markdown_text)) initial_state)"

definition parse_markdown_table_from_text :: "string \<Rightarrow> string list list option" where
  "parse_markdown_table_from_text markdown_text =
     (if markdown_text = [] then None
      else let table = emitted_rows markdown_text in
        if table = [] then None
        else if \<not> list_ex (\<lambda>row. list_ex (\<lambda>cell. cell \<noteq> []) row) table then None
        else Some table)"

text \<open>The input contains a table line: one of its lines, trimmed, starts and ends with
  a pipe.\<close>

definition has_table_line :: "string \<Rightarrow> bool" where
  "has_table_line t = list_ex (\<lambda>l. is_table_line (strip l)) (str_split newline t)"

section \<open>Python values of the structured response\<close>

text \<open>What \<open>json.loads\<close> returns. A dict is an association list read with
  \<^const>\<open>map_of\<close>; iterating it gives its keys. A cell of an extracted table is such a
  value: a string from the parser, any value from the structured response.\<close>

datatype pyval =
    PNone
  | PBool bool
  | PInt int
  | PFloat real
  | PStr string
  | PList "pyval list"
  | PDict "(string \<times> pyval) list"

type_synonym table = "pyval list list"

fun truthy :: "pyval \<Rightarrow> bool" where
  "truthy PNone = False"
| "truthy (PBool b) = b"
| "truthy (PInt i) = (i \<noteq> 0)"
| "truthy (PFloat r) = (r \<noteq> 0)"
| "truthy (PStr s) = (s \<noteq> [])"
| "truthy (PList xs) = (xs \<noteq> [])"
| "truthy (PDict d) = (d \<noteq> [])"

text \<open>\<open>for row_obj in v\<close>: \<open>None\<close> is the TypeError of a value that is not iterable.\<close>

fun py_iter :: "pyval \<Rightarrow> pyval list option" where
  "py_iter (PList xs) = Some xs"
| "py_iter (PStr s) = Some (map (\<lambda>c. PStr [c]) s)"
| "py_iter (PDict d) = Some (map (\<lambda>kv. PStr (fst kv)) d)"
| "py_iter v = None"

text \<open>\<open>row_obj.get(header, "")\<close>: \<open>None\<close> is the AttributeError of a value without \<open>get\<close>.\<close>

fun get_cell :: "pyval \<Rightarrow> string \<Rightarrow> pyval option" where
  "get_cell (PDict d) header = Some (case map_of d header of None \<Rightarrow> PStr [] | Some v \<Rightarrow> v)"
| "get_cell v header = None"

text \<open>The inner loop over \<open>target_headers\<close> (with no header, \<open>get\<close> is never called).\<close>

fun build_row :: "string list \<Rightarrow> pyval \<Rightarrow> pyval list option" where
  "build_row [] row_obj = Some []"
| "build_row (header # hs) row_obj =
     (case get_cell row_obj header of
        None \<Rightarrow> None
      | Some v \<Rightarrow> (case build_row hs row_obj of None \<Rightarrow> None | Some row \<Rightarrow> Some (v # row)))"

text \<open>The outer loop over \<open>parsed_data['rows']\<close>.\<close>

fun build_rows :: "string list \<Rightarrow> pyval list \<Rightarrow> table option" where
  "build_rows target_headers [] = Some []"
| "build_rows target_headers (row_obj # objs) =
     (case build_row target_headers row_obj of
        None \<Rightarrow> None
      | Some row \<Rightarrow>
          (case build_rows target_headers objs of None \<Rightarrow> None | Some rows \<Rightarrow> Some (row # rows)))"

text \<open>
  The conversion of the parsed response, inside the \<open>try\<close>. \<open>None\<close> is both
  \<open>return None\<close> and every exception that \<open>except Exception\<close> turns into \<open>None\<close>:
  on a value that is not a dict, \<open>'rows' in parsed_data\<close> either raises, is false, or is
  followed by \<open>parsed_data['rows']\<close>, which raises.
\<close>

definition convert_to_table :: "string list \<Rightarrow> pyval \<Rightarrow> table option" where
  "convert_to_table target_headers parsed_data =
     (case parsed_data of
        PDict d \<Rightarrow>
          (case map_of d ''rows'' of
             None \<Rightarrow> None
           | Some rows \<Rightarrow>
               if \<not> truthy rows then None
               else (case py_iter rows of
                       None \<Rightarrow> None
                     | Some objs \<Rightarrow>
                         (case build_rows target_headers objs of
                            None \<Rightarrow> None
                          | Some formatted \<Rightarrow> Some (map PStr target_headers # formatted))))
      | _ \<Rightarrow> None)"

section \<open>The structured-reformatting tier\<close>

text \<open>The exceptions that \<open>except Exception\<close> catches. \<open>KeyboardInterrupt\<close> is none of
  them: it is the signal that ends the run.\<close>

datatype error = RuntimeError | ValueError | TypeError | OtherError

text \<open>The outcome of the chat call and of \<open>json.loads\<close> on its content.\<close>

datatype llm_reply = CallFails | NotJson | Json pyval

text \<open>The remote service answers a request, which the prompt builds from the key, the
  OCR text and the headers.\<close>

type_synonym chat_service = "string \<Rightarrow> string \<Rightarrow> string list \<Rightarrow> llm_reply"

definition format_ocr_with_structured_output ::
    "bool \<Rightarrow> chat_service \<Rightarrow> string \<Rightarrow> string \<Rightarrow> string list \<Rightarrow> error + table option" where
  "format_ocr_with_structured_output sdk_available chat api_key ocr_text target_headers =
     (if \<not> sdk_available then Inl RuntimeError
      else (case chat api_key ocr_text target_headers of
              CallFails \<Rightarrow> Inr None
            | NotJson \<Rightarrow> Inr None
            | Json parsed_data \<Rightarrow> Inr (convert_to_table target_headers parsed_data)))"

section \<open>The table extractor\<close>

text \<open>
  A page is an object with attributes \<open>markdown\<close> and \<open>text\<close>, or a dict with keys
  \<open>markdown\<close> and \<open>text\<close>. Each of them is absent (\<open>hasattr\<close> is false, the key is
  missing), holds \<open>None\<close>, or holds a string.
\<close>

datatype field = Absent | Null | Str string

datatype page =
    PageObject (markdown_attr: field) (text_attr: field)
  | PageDict (markdown_key: field) (text_key: field)

text \<open>\<open>NoPages\<close>: a response with neither a \<open>pages\<close> attribute nor a \<open>pages\<close> key.
  \<open>Response []\<close> is a response whose pages are empty or \<open>None\<close>.\<close>

datatype ocr_response = NoPages | Response "page list"

text \<open>\<open>value + "\n"\<close>: the TypeError of \<open>None + "\n"\<close> is \<open>Inl\<close>.\<close>

fun add_newline :: "field \<Rightarrow> error + string" where
  "add_newline (Str s) = Inr (s @ [newline])"
| "add_newline Null = Inl TypeError"
| "add_newline Absent = Inr [newline]"

text \<open>
  What one page adds to \<open>raw_text\<close>. An object adds its \<open>markdown\<close> attribute, or else its
  \<open>text\<close> attribute, or nothing; a dict adds \<open>get("markdown", "")\<close> and then
  \<open>get("text", "")\<close>, each with a newline.
\<close>

fun page_text :: "page \<Rightarrow> error + string" where
  "page_text (PageObject Absent Absent) = Inr []"
| "page_text (PageObject Absent t) = add_newline t"
| "page_text (PageObject m t) = add_newline m"
| "page_text (PageDict m t) =
     (case add_newline m of
        Inl e \<Rightarrow> Inl e
      | Inr a \<Rightarrow> (case add_newline t of Inl e \<Rightarrow> Inl e | Inr b \<Rightarrow> Inr (a @ b)))"

fun collect_text :: "page list \<Rightarrow> string \<Rightarrow> error + string" where
  "collect_text [] raw_text = Inr raw_text"
| "collect_text (page_data # rest) raw_text =
     (case page_text page_data of
        Inl e \<Rightarrow> Inl e
      | Inr added \<Rightarrow> collect_text rest (raw_text @ added))"

text \<open>The fallback's \<open>markdown_content\<close>; \<open>None\<close> is \<open>continue\<close>. A content that is
  \<open>None\<close> is falsy as the empty string is, so it is given as the empty string.\<close>

fun markdown_content :: "page \<Rightarrow> string option" where
  "markdown_content (PageObject Absent t) = None"
| "markdown_content (PageObject Null t) = Some []"
| "markdown_content (PageObject (Str markdown) t) = Some markdown"
| "markdown_content (PageDict Absent t) = Some []"
| "markdown_content (PageDict Null t) = Some []"
| "markdown_content (PageDict (Str markdown) t) = Some markdown"

text \<open>The table that the fallback parses from one page; \<open>None\<close> when it goes on to the
  next page.\<close>

definition page_table :: "page \<Rightarrow> string list list option" where
  "page_table page_data =
     (case markdown_content page_data of
        None \<Rightarrow> None
      | Some content \<Rightarrow>
          if content \<noteq> [] then
            (case parse_markdown_table_from_text content of
               None \<Rightarrow> None
             | Some parsed \<Rightarrow> if length parsed > 0 then Some parsed else None)
          else None)"

text \<open>Pad or trim one row to the header count.\<close>

definition fit_row :: "nat \<Rightarrow> string list \<Rightarrow> string list" where
  "fit_row n row =
     (if length row \<ge> n then take n row else row @ replicate (n - length row) [])"

definition format_parsed :: "string list \<Rightarrow> string list list \<Rightarrow> table" where
  "format_parsed target_headers parsed =
     (let data_rows = (if length parsed > 1 then tl parsed else [])
      in map PStr target_headers #
         map (\<lambda>row. map PStr (fit_row (length target_headers) row)) data_rows)"

fun markdown_fallback :: "page list \<Rightarrow> string list \<Rightarrow> table option" where
  "markdown_fallback [] target_headers = None"
| "markdown_fallback (page_data # rest) target_headers =
     (case page_table page_data of
        None \<Rightarrow> markdown_fallback rest target_headers
      | Some parsed \<Rightarrow> Some (format_parsed target_headers parsed))"

text \<open>
  The structured tier as \<open>extract_table_with_headers\<close> uses it: called with
  \<open>raw_text.strip()\<close> when that text and the key are not empty. \<open>Inr None\<close> is the fall
  through to the parser, \<open>Inl\<close> an exception that the tier does not catch.
\<close>

definition structured_tier ::
    "bool \<Rightarrow> chat_service \<Rightarrow> string \<Rightarrow> string list \<Rightarrow> string option \<Rightarrow> error + table option" where
  "structured_tier sdk_available chat raw_text target_headers api_key =
     (case api_key of
        None \<Rightarrow> Inr None
      | Some k \<Rightarrow>
          if strip raw_text \<noteq> [] \<and> k \<noteq> [] then
            (case format_ocr_with_structured_output sdk_available chat k (strip raw_text)
                    target_headers of
               Inl e \<Rightarrow> Inl e
             | Inr None \<Rightarrow> Inr None
             | Inr (Some formatted_table) \<Rightarrow>
                 if formatted_table \<noteq> [] then Inr (Some formatted_table) else Inr None)
          else Inr None)"

definition extract_table_with_headers ::
    "bool \<Rightarrow> chat_service \<Rightarrow> ocr_response \<Rightarrow> string list \<Rightarrow> string option
      \<Rightarrow> error + table option" where
  "extract_table_with_headers sdk_available chat ocr_response target_headers api_key =
     (case ocr_response of
        NoPages \<Rightarrow> Inr None
      | Response pages \<Rightarrow>
          if pages = [] then Inr None
          else
            (case collect_text pages [] of
               Inl e \<Rightarrow> Inl e
             | Inr raw_text \<Rightarrow>
                 (case structured_tier sdk_available chat raw_text target_headers api_key of
                    Inl e \<Rightarrow> Inl e
                  | Inr (Some formatted_table) \<Rightarrow> Inr (Some formatted_table)
                  | Inr None \<Rightarrow> Inr (markdown_fallback pages target_headers))))"

text \<open>
  The raw text blob in the words of the specification: each page's markdown rendering when
  present, otherwise its plain-text rendering, in page order, separated by newlines.
\<close>

fun rendering :: "page \<Rightarrow> string option" where
  "rendering (PageObject (Str markdown) t) = Some markdown"
| "rendering (PageObject m (Str plain)) = Some plain"
| "rendering (PageObject m t) = None"
| "rendering (PageDict (Str markdown) t) = Some markdown"
| "rendering (PageDict m (Str plain)) = Some plain"
| "rendering (PageDict m t) = None"

fun join_lines :: "string list \<Rightarrow> string" where
  "join_lines [] = []"
| "join_lines [s] = s"
| "join_lines (s # ss) = s @ [newline] @ join_lines ss"

definition spec_raw_text :: "page list \<Rightarrow> string" where
  "spec_raw_text pages = join_lines (List.map_filter rendering pages)"

text \<open>A page given as an object whose attributes, where it has them, hold strings.\<close>

fun object_page :: "page \<Rightarrow> bool" where
  "object_page (PageObject m t) = (m \<noteq> Null \<and> (m = Absent \<longrightarrow> t \<noteq> Null))"
| "object_page (PageDict m t) = False"

section \<open>The CSV accumulator\<close>

text \<open>
  The CSV file is the list of its records, as \<open>csv.reader\<close> returns them and
  \<open>csv.writer\<close> writes them; \<open>None\<close> is a file that cannot be read. The writer turns
  a cell that is not a string into text: \<open>None\<close> into the empty string, any other
  value by \<open>str\<close>, which is the parameter \<open>str_of\<close>.
\<close>

type_synonym csv_file = "string list list option"

definition csv_field :: "(pyval \<Rightarrow> string) \<Rightarrow> pyval \<Rightarrow> string" where
  "csv_field str_of v = (case v of PStr s \<Rightarrow> s | PNone \<Rightarrow> [] | _ \<Rightarrow> str_of v)"

definition save_table_to_csv :: "string list list \<Rightarrow> csv_file \<Rightarrow> csv_file" where
  "save_table_to_csv rows f = Some rows"

text \<open>The append of one cycle: the file opened with mode \<open>"a"\<close>, which creates a missing
  file, and one \<open>writerow\<close> for each row. Writing is taken to succeed.\<close>

definition append_rows :: "(pyval \<Rightarrow> string) \<Rightarrow> table \<Rightarrow> csv_file \<Rightarrow> csv_file" where
  "append_rows str_of rows f =
     Some ((case f of None \<Rightarrow> [] | Some old \<Rightarrow> old) @ map (map (csv_field str_of)) rows)"

text \<open>The loop of \<open>deduplicate_csv\<close> with its two accumulators.\<close>

fun unique_loop ::
    "string list list \<Rightarrow> string list list \<Rightarrow> string list set \<Rightarrow> string list list" where
  "unique_loop [] unique_rows seen = unique_rows"
| "unique_loop (row # rest) unique_rows seen =
     (if row \<notin> seen then unique_loop rest (unique_rows @ [row]) (insert row seen)
      else unique_loop rest unique_rows seen)"

text \<open>\<open>deduplicate_csv\<close> returns the file and the count; a file that cannot be read is
  the exception that the function catches, returning 0.\<close>

definition deduplicate_csv :: "csv_file \<Rightarrow> csv_file \<times> int" where
  "deduplicate_csv f =
     (case f of
        None \<Rightarrow> (f, 0)
      | Some [] \<Rightarrow> (f, 0)
      | Some (header # data_rows) \<Rightarrow>
          (let original_count = int (length data_rows);
               unique_rows = unique_loop data_rows [] {}
           in (Some (header # unique_rows), original_count - int (length unique_rows))))"

section \<open>The capture loop\<close>

record config =
  cfg_sdk_available :: bool
  cfg_api_key :: "string option"
  cfg_target_headers :: "string list"
  cfg_debug_mode :: bool
  cfg_str_of :: "pyval \<Rightarrow> string"

text \<open>What the outside world does in one cycle: whether the capture raises, what the OCR
  call returns or raises, and how the chat service answers.\<close>

record cycle_io =
  io_screenshot :: "error + unit"
  io_ocr_call :: "error + ocr_response"
  io_chat :: chat_service

definition perform_ocr_on_image :: "bool \<Rightarrow> error + ocr_response \<Rightarrow> error + ocr_response" where
  "perform_ocr_on_image sdk outcome = (if \<not> sdk then Inl RuntimeError else outcome)"

text \<open>The body of the inner \<open>try\<close>: \<open>Inl\<close> is an exception raised in it.\<close>

definition cycle_body :: "config \<Rightarrow> cycle_io \<Rightarrow> csv_file \<Rightarrow> error + csv_file" where
  "cycle_body cfg io f =
     (case io_screenshot io of
        Inl e \<Rightarrow> Inl e
      | Inr u \<Rightarrow>
          (case perform_ocr_on_image (cfg_sdk_available cfg) (io_ocr_call io) of
             Inl e \<Rightarrow> Inl e
           | Inr ocr_response \<Rightarrow>
               (case extract_table_with_headers (cfg_sdk_available cfg) (io_chat io) ocr_response
                       (cfg_target_headers cfg) (cfg_api_key cfg) of
                  Inl e \<Rightarrow> Inl e
                | Inr None \<Rightarrow> Inr f
                | Inr (Some extracted) \<Rightarrow>
                    if length extracted > 1 then Inr (append_rows (cfg_str_of cfg) (tl extracted) f)
                    else Inr f)))"

text \<open>One cycle: \<open>except Exception\<close> keeps the file as it is.\<close>

definition capture_cycle :: "config \<Rightarrow> cycle_io \<Rightarrow> csv_file \<Rightarrow> csv_file" where
  "capture_cycle cfg io f = (case cycle_body cfg io f of Inl e \<Rightarrow> f | Inr f' \<Rightarrow> f')"

text \<open>The cycles run before the interrupt, in order; the interrupt comes between two
  cycles. What a cycle does after its \<open>try\<close> (activating the window, the keystrokes, the
  wait) catches its own exceptions and does not touch the CSV file.\<close>

fun run_cycles :: "config \<Rightarrow> cycle_io list \<Rightarrow> csv_file \<Rightarrow> csv_file" where
  "run_cycles cfg [] f = f"
| "run_cycles cfg (io # ios) f = run_cycles cfg ios (capture_cycle cfg io f)"

text \<open>\<open>screen_capture_mode\<close> from the initialisation of the CSV file to the end:
  \<open>proceed\<close> is the answer, yes or no, that ends the debug prompt.\<close>

definition screen_capture_mode :: "config \<Rightarrow> cycle_io list \<Rightarrow> bool \<Rightarrow> csv_file \<Rightarrow> csv_file" where
  "screen_capture_mode cfg ios proceed f0 =
     (let f1 = save_table_to_csv [cfg_target_headers cfg] f0;
          f2 = run_cycles cfg ios f1
      in if cfg_debug_mode cfg \<and> \<not> proceed then f2 else fst (deduplicate_csv f2))"

text \<open>The states of the CSV file that a run reaches.\<close>

inductive reachable :: "config \<Rightarrow> csv_file \<Rightarrow> bool" for cfg :: config where
  initialised: "reachable cfg (save_table_to_csv [cfg_target_headers cfg] f0)"
| cycle: "reachable cfg f \<Longrightarrow> reachable cfg (capture_cycle cfg io f)"
| deduplicated: "reachable cfg f \<Longrightarrow> reachable cfg (fst (deduplicate_csv f))"

section \<open>The CSV file as text\<close>

text \<open>
  \<open>deduplicate_csv\<close> reads the file with \<open>csv.reader\<close> and writes it with \<open>csv.writer\<close>,
  both with the default dialect (delimiter \<open>,\<close>, quote character \<open>"\<close>, doubled quotes, no
  escape character, minimal quoting, line terminator CR LF, not strict) on a file opened
  with \<open>newline=""\<close>. The content of the file is a string.
\<close>

definition carriage_return :: char where
  "carriage_return = CHR 0x0D"

definition comma :: char where
  "comma = CHR '',''"

definition dquote :: char where
  "dquote = CHR 0x22"

text \<open>\<open>csv.field_size_limit()\<close>\<close>

definition field_limit :: nat where
  "field_limit = 131072"

datatype reader_state =
  START_RECORD | START_FIELD | IN_FIELD | IN_QUOTED_FIELD | QUOTE_IN_QUOTED_FIELD | EAT_CRNL

record reader =
  rd_state :: reader_state
  rd_fields :: "string list"
  rd_field :: string

definition parse_reset :: reader where
  "parse_reset = \<lparr>rd_state = START_RECORD, rd_fields = [], rd_field = []\<rparr>"

text \<open>\<open>None\<close> is \<open>csv.Error\<close>: the field is larger than the field limit.\<close>

definition parse_add_char :: "reader \<Rightarrow> char \<Rightarrow> reader option" where
  "parse_add_char r c =
     (if length (rd_field r) \<ge> field_limit then None
      else Some (r\<lparr>rd_field := rd_field r @ [c]\<rparr>))"

definition parse_save_field :: "reader \<Rightarrow> reader" where
  "parse_save_field r = r\<lparr>rd_fields := rd_fields r @ [rd_field r], rd_field := []\<rparr>"

definition set_state :: "reader_state \<Rightarrow> reader \<Rightarrow> reader" where
  "set_state s r = r\<lparr>rd_state := s\<rparr>"

text \<open>The reader's step on one character; the character \<open>None\<close> is the end of a line,
  which the reader is given after the characters of each line. First the case
  \<open>START_FIELD\<close>, which \<open>START_RECORD\<close> falls through to.\<close>

definition start_field :: "reader \<Rightarrow> char option \<Rightarrow> reader option" where
  "start_field r c =
     (case c of
        None \<Rightarrow> Some (set_state START_RECORD (parse_save_field r))
      | Some x \<Rightarrow>
          if x = newline \<or> x = carriage_return then Some (set_state EAT_CRNL (parse_save_field r))
          else if x = dquote then Some (set_state IN_QUOTED_FIELD r)
          else if x = comma then Some (set_state START_FIELD (parse_save_field r))
          else map_option (set_state IN_FIELD) (parse_add_char r x))"

definition parse_process_char :: "reader \<Rightarrow> char option \<Rightarrow> reader option" where
  "parse_process_char r c =
     (case rd_state r of
        START_RECORD \<Rightarrow>
          (case c of
             None \<Rightarrow> Some r
           | Some x \<Rightarrow>
               if x = newline \<or> x = carriage_return then Some (set_state EAT_CRNL r)
               else start_field r c)
      | START_FIELD \<Rightarrow> start_field r c
      | IN_FIELD \<Rightarrow>
          (case c of
             None \<Rightarrow> Some (set_state START_RECORD (parse_save_field r))
           | Some x \<Rightarrow>
               if x = newline \<or> x = carriage_return
               then Some (set_state EAT_CRNL (parse_save_field r))
               else if x = comma then Some (set_state START_FIELD (parse_save_field r))
               else parse_add_char r x)
      | IN_QUOTED_FIELD \<Rightarrow>
          (case c of
             None \<Rightarrow> Some r
           | Some x \<Rightarrow>
               if x = dquote then Some (set_state QUOTE_IN_QUOTED_FIELD r)
               else parse_add_char r x)
      | QUOTE_IN_QUOTED_FIELD \<Rightarrow>
          (case c of
             None \<Rightarrow> Some (set_state START_RECORD (parse_save_field r))
           | Some x \<Rightarrow>
               if x = dquote then map_option (set_state IN_QUOTED_FIELD) (parse_add_char r x)
               else if x = comma then Some (set_state START_FIELD (parse_save_field r))
               else if x = newline \<or> x = carriage_return
               then Some (set_state EAT_CRNL (parse_save_field r))
               else map_option (set_state IN_FIELD) (parse_add_char r x))
      | EAT_CRNL \<Rightarrow>
          (case c of
             None \<Rightarrow> Some (set_state START_RECORD r)
           | Some x \<Rightarrow> if x = newline \<or> x = carriage_return then Some r else None))"

text \<open>
  The file gives its lines with their endings: a line ends after LF, after a CR that no
  LF follows, and at the end of the content.
\<close>

definition line_ends :: "char \<Rightarrow> string \<Rightarrow> bool" where
  "line_ends c cs =
     (c = newline \<or> (c = carriage_return \<and> (case cs of [] \<Rightarrow> True | d # _ \<Rightarrow> d \<noteq> newline))
      \<or> cs = [])"

text \<open>
  \<open>list(reader)\<close>: the characters of the lines in turn, the end of the line after each
  line, and a record whenever the state is \<open>START_RECORD\<close> after a line. At the end of the
  content a record that is still open is returned as it is.
\<close>

fun read_chars :: "reader \<Rightarrow> string list list \<Rightarrow> string \<Rightarrow> string list list option" where
  "read_chars r rows [] =
     Some (if rd_field r \<noteq> [] \<or> rd_state r = IN_QUOTED_FIELD
           then rows @ [rd_fields (parse_save_field r)] else rows)"
| "read_chars r rows (c # cs) =
     (case parse_process_char r (Some c) of
        None \<Rightarrow> None
      | Some r1 \<Rightarrow>
          if line_ends c cs then
            (case parse_process_char r1 None of
               None \<Rightarrow> None
             | Some r2 \<Rightarrow>
                 if rd_state r2 = START_RECORD
                 then read_chars parse_reset (rows @ [rd_fields r2]) cs
                 else read_chars r2 rows cs)
          else read_chars r1 rows cs)"

definition csv_reader :: "string \<Rightarrow> string list list option" where
  "csv_reader content = read_chars parse_reset [] content"

text \<open>The writer quotes a field that holds the delimiter, the quote character or a
  character of the line terminator, and doubles the quotes in it.\<close>

definition needs_quotes :: "string \<Rightarrow> bool" where
  "needs_quotes s =
     list_ex (\<lambda>c. c = comma \<or> c = dquote \<or> c = carriage_return \<or> c = newline) s"

definition double_quotes :: "string \<Rightarrow> string" where
  "double_quotes s = concat (map (\<lambda>c. if c = dquote then [c, c] else [c]) s)"

definition write_field :: "string \<Rightarrow> string" where
  "write_field s = (if needs_quotes s then dquote # double_quotes s @ [dquote] else s)"

fun join_fields :: "string list \<Rightarrow> string" where
  "join_fields [] = []"
| "join_fields [f] = f"
| "join_fields (f # fs) = f @ [comma] @ join_fields fs"

text \<open>\<open>writerow\<close>: a record of one empty field is written as two quotes.\<close>

definition writerow :: "string list \<Rightarrow> string" where
  "writerow row =
     (if row = [[]] then [dquote, dquote] else join_fields (map write_field row))
     @ [carriage_return, newline]"

definition csv_writer :: "string list list \<Rightarrow> string" where
  "csv_writer rows = concat (map writerow rows)"

text \<open>
  \<open>deduplicate_csv\<close> on the content of the file; \<open>None\<close> is a file that cannot be opened.
  A content that the reader refuses is the exception that the function catches.
\<close>

definition deduplicate_csv_file :: "string option \<Rightarrow> string option \<times> int" where
  "deduplicate_csv_file f =
     (case f of
        None \<Rightarrow> (f, 0)
      | Some content \<Rightarrow>
          (case csv_reader content of
             None \<Rightarrow> (f, 0)
           | Some [] \<Rightarrow> (f, 0)
           | Some (header # data_rows) \<Rightarrow>
               (let original_count = int (length data_rows);
                    unique_rows = unique_loop data_rows [] {}
                in (Some (csv_writer (header # unique_rows)),
                    original_count - int (length unique_rows)))))"

text \<open>The header line of a content: its first line with the line ending.\<close>

fun header_line :: "string \<Rightarrow> string" where
  "header_line [] = []"
| "header_line (c # cs) = (if line_ends c cs then [c] else c # header_line cs)"

section \<open>Deduplication\<close>

lemma unique_loop_index:
  "unique_loop xs acc seen =
     acc @ [xs ! i. i \<leftarrow> [0..<length xs], xs ! i \<notin> seen \<and> xs ! i \<notin> set (take i xs)]"
proof (induction xs arbitrary: acc seen)
  case Nil
  then show ?case by simp
next
  case (Cons x xs)
  have upt: "[0..<length (x # xs)] = 0 # map Suc [0..<length xs]"
    by (simp add: upt_conv_Cons map_Suc_upt del: upt_Suc)
  show ?case
  proof (cases "x \<in> seen")
    case True
    have "[(x # xs) ! i. i \<leftarrow> [0..<length (x # xs)], (x # xs) ! i \<notin> seen \<and> (x # xs) ! i \<notin> set (take i (x # xs))]
        = [xs ! i. i \<leftarrow> [0..<length xs], xs ! i \<notin> seen \<and> xs ! i \<notin> set (take i xs)]"
      unfolding upt using True
      by (auto simp: comp_def intro!: arg_cong[where f=concat] map_cong)
    then show ?thesis using True Cons.IH[of acc seen] by simp
  next
    case False
    have "[(x # xs) ! i. i \<leftarrow> [0..<length (x # xs)], (x # xs) ! i \<notin> seen \<and> (x # xs) ! i \<notin> set (take i (x # xs))]
        = x # [xs ! i. i \<leftarrow> [0..<length xs], xs ! i \<notin> insert x seen \<and> xs ! i \<notin> set (take i xs)]"
      unfolding upt using False
      by (auto simp: comp_def intro!: arg_cong[where f=concat] map_cong)
    then show ?thesis using False Cons.IH[of "acc @ [x]" "insert x seen"] by simp
  qed
qed

lemma unique_loop_set: "set (unique_loop xs acc seen) = set acc \<union> (set xs - seen)"
  by (induction xs arbitrary: acc seen) auto

lemma unique_loop_distinct:
  "distinct acc \<Longrightarrow> set acc \<subseteq> seen \<Longrightarrow> distinct (unique_loop xs acc seen)"
proof (induction xs arbitrary: acc seen)
  case Nil
  then show ?case by simp
next
  case (Cons x xs)
  show ?case
  proof (cases "x \<in> seen")
    case True
    then show ?thesis using Cons by simp
  next
    case False
    have "distinct (acc @ [x])" "set (acc @ [x]) \<subseteq> insert x seen"
      using False Cons.prems by auto
    then have "distinct (unique_loop xs (acc @ [x]) (insert x seen))"
      by (rule Cons.IH)
    then show ?thesis using False by simp
  qed
qed

lemma unique_loop_length: "length (unique_loop xs acc seen) \<le> length acc + length xs"
proof (induction xs arbitrary: acc seen)
  case Nil
  then show ?case by simp
next
  case (Cons x xs)
  show ?case
    using Cons.IH[of acc seen] Cons.IH[of "acc @ [x]" "insert x seen"] by simp
qed

text \<open>On rows that are already distinct the loop keeps every row.\<close>

lemma unique_loop_id:
  "distinct xs \<Longrightarrow> set xs \<inter> seen = {} \<Longrightarrow> unique_loop xs acc seen = acc @ xs"
  by (induction xs arbitrary: acc seen) auto

text \<open>
  Claim C3. On a CSV file whose first record is the header, \<open>deduplicate_csv\<close> rewrites
  the file as the header followed by the data rows kept at their first occurrence (the
  row at index \<open>i\<close> stays exactly when no earlier row equals it), so the kept rows are
  distinct and are the same rows as before, and it returns the number of data rows minus
  the number of kept rows. Data rows \<open>[A, B, A, C, B]\<close> become \<open>[A, B, C]\<close>.
\<close>

theorem deduplicate_first_occurrences:
  "(let unique = [data ! i. i \<leftarrow> [0..<length data], data ! i \<notin> set (take i data)]
    in deduplicate_csv (Some (header # data)) =
         (Some (header # unique), int (length data) - int (length unique))
       \<and> distinct unique \<and> set unique = set data)
   \<and> (A \<noteq> B \<and> A \<noteq> C \<and> B \<noteq> C \<longrightarrow>
        deduplicate_csv (Some [header, A, B, A, C, B]) = (Some [header, A, B, C], 2))"
proof -
  define unique where
    "unique = [data ! i. i \<leftarrow> [0..<length data], data ! i \<notin> set (take i data)]"
  have u: "unique_loop data [] {} = unique"
    by (simp add: unique_loop_index unique_def)
  have d: "distinct unique"
    using unique_loop_distinct[of "[]" "{}" data] u by simp
  have s: "set unique = set data"
    using unique_loop_set[of data "[]" "{}"] u by simp
  have r: "deduplicate_csv (Some (header # data)) =
         (Some (header # unique), int (length data) - int (length unique))"
    by (simp add: deduplicate_csv_def u Let_def)
  have e: "A \<noteq> B \<and> A \<noteq> C \<and> B \<noteq> C \<longrightarrow>
        deduplicate_csv (Some [header, A, B, A, C, B]) = (Some [header, A, B, C], 2)"
    by (auto simp: deduplicate_csv_def Let_def)
  show ?thesis
    using r d s e unfolding unique_def Let_def by blast
qed

theorem deduplicate_first_occurrences_witness:
  "[''x''] \<noteq> [''y''] \<and> [''x''] \<noteq> [''z''] \<and> [''y''] \<noteq> [''z'']
   \<and> deduplicate_csv (Some [[''h''], [''x''], [''y''], [''x''], [''z''], [''y'']]) =
       (Some [[''h''], [''x''], [''y''], [''z'']], 2)"
  using deduplicate_first_occurrences[of "[[''x'']]" "[''h'']" "[''x'']" "[''y'']" "[''z'']"]
  by simp

text \<open>A second run finds nothing to remove and writes the same records.\<close>

lemma deduplicate_fixed:
  "deduplicate_csv (fst (deduplicate_csv f)) = (fst (deduplicate_csv f), 0)"
proof (cases f)
  case None
  then show ?thesis by (simp add: deduplicate_csv_def)
next
  case (Some rows)
  show ?thesis
  proof (cases rows)
    case Nil
    then show ?thesis using Some by (simp add: deduplicate_csv_def)
  next
    case (Cons header data)
    have "distinct (unique_loop data [] {})"
      using unique_loop_distinct[of "[]" "{}" data] by simp
    then have "unique_loop (unique_loop data [] {}) [] {} = unique_loop data [] {}"
      using unique_loop_id[of "unique_loop data [] {}" "{}" "[]"] by simp
    then show ?thesis using Some Cons by (simp add: deduplicate_csv_def Let_def)
  qed
qed

section \<open>The first table block\<close>

text \<open>Lines before the table leave the state as it is.\<close>

lemma parse_lines_skip:
  "\<forall>l\<in>set pre. \<not> is_table_line (strip l) \<Longrightarrow> \<not> table_started st \<Longrightarrow>
   parse_lines (pre @ ls) st = parse_lines ls st"
  by (induction pre) simp_all

text \<open>After the table has started, the first line that is no table line ends the loop.\<close>

lemma parse_lines_stop:
  "table_started st \<Longrightarrow> rest = [] \<or> \<not> is_table_line (strip (hd rest)) \<Longrightarrow>
   parse_lines rest st = st"
  by (cases rest) simp_all

lemma parse_lines_block:
  "table_started st \<Longrightarrow> header_parsed st \<Longrightarrow> \<forall>l\<in>set block. is_table_line (strip l) \<Longrightarrow>
   parse_lines (block @ rest) st =
     parse_lines rest
       (st\<lparr>table_data := table_data st @
           map (\<lambda>l. cells_of (strip l))
             (filter (\<lambda>l. \<not> (length (cells_of (strip l)) = column_count st
                              \<and> is_separator (cells_of (strip l)))) block)\<rparr>)"
proof (induction block arbitrary: st)
  case Nil
  then show ?case by simp
next
  case (Cons l block)
  have same: "st\<lparr>table_started := True\<rparr> = st"
    using Cons.prems(1) by simp
  show ?case
  proof (cases "length (cells_of (strip l)) = column_count st \<and> is_separator (cells_of (strip l))")
    case True
    then show ?thesis
      using Cons.prems Cons.IH[of st] by (simp add: Let_def same)
  next
    case False
    let ?st = "st\<lparr>table_data := table_data st @ [cells_of (strip l)]\<rparr>"
    have "parse_lines ((l # block) @ rest) st = parse_lines (block @ rest) ?st"
      using Cons.prems False by (auto simp add: Let_def same)
    also have "\<dots> = parse_lines rest
       (?st\<lparr>table_data := table_data ?st @
           map (\<lambda>l. cells_of (strip l))
             (filter (\<lambda>l. \<not> (length (cells_of (strip l)) = column_count ?st
                              \<and> is_separator (cells_of (strip l)))) block)\<rparr>)"
      using Cons.prems by (intro Cons.IH) simp_all
    finally show ?thesis using False by simp
  qed
qed

lemma parse_lines_header:
  "\<not> table_started st \<Longrightarrow> \<not> header_parsed st \<Longrightarrow> is_table_line (strip h) \<Longrightarrow>
   parse_lines (h # ls) st =
     parse_lines ls (st\<lparr>table_started := True,
        table_data := table_data st @ [cells_of (strip h)],
        header_parsed := True, column_count := length (cells_of (strip h))\<rparr>)"
  by (simp add: Let_def)

lemma parse_lines_first_block:
  assumes "\<forall>l\<in>set pre. \<not> is_table_line (strip l)"
    and "is_table_line (strip h)"
    and "\<forall>l\<in>set block. is_table_line (strip l)"
    and "rest = [] \<or> \<not> is_table_line (strip (hd rest))"
  shows "table_data (parse_lines (pre @ h # block @ rest) initial_state) =
     cells_of (strip h) #
     map (\<lambda>l. cells_of (strip l))
       (filter (\<lambda>l. \<not> (length (cells_of (strip l)) = length (cells_of (strip h))
                        \<and> is_separator (cells_of (strip l)))) block)"
proof -
  let ?st = "initial_state\<lparr>table_started := True,
        table_data := table_data initial_state @ [cells_of (strip h)],
        header_parsed := True, column_count := length (cells_of (strip h))\<rparr>"
  have "parse_lines (pre @ h # block @ rest) initial_state = parse_lines (h # block @ rest) initial_state"
    using assms(1) by (intro parse_lines_skip) (simp_all add: initial_state_def)
  also have "\<dots> = parse_lines (block @ rest) ?st"
    using assms(2) by (intro parse_lines_header) (simp_all add: initial_state_def)
  also have "\<dots> = parse_lines rest (?st\<lparr>table_data := table_data ?st @
           map (\<lambda>l. cells_of (strip l))
             (filter (\<lambda>l. \<not> (length (cells_of (strip l)) = column_count ?st
                              \<and> is_separator (cells_of (strip l)))) block)\<rparr>)"
    using assms(3) by (intro parse_lines_block) simp_all
  also have "\<dots> = (?st\<lparr>table_data := table_data ?st @
           map (\<lambda>l. cells_of (strip l))
             (filter (\<lambda>l. \<not> (length (cells_of (strip l)) = column_count ?st
                              \<and> is_separator (cells_of (strip l)))) block)\<rparr>)"
    using assms(4) by (intro parse_lines_stop) simp_all
  finally show ?thesis by (simp add: initial_state_def)
qed

lemma parse_lines_grows:
  "table_data st \<noteq> [] \<Longrightarrow> table_data (parse_lines ls st) \<noteq> []"
  by (induction ls arbitrary: st) (simp_all add: Let_def)

lemma parse_lines_empty_iff:
  "\<not> table_started st \<Longrightarrow> \<not> header_parsed st \<Longrightarrow> table_data st = [] \<Longrightarrow>
   table_data (parse_lines ls st) = [] \<longleftrightarrow> \<not> (\<exists>l\<in>set ls. is_table_line (strip l))"
proof (induction ls)
  case Nil
  then show ?case by simp
next
  case (Cons l ls)
  show ?case
  proof (cases "is_table_line (strip l)")
    case True
    then show ?thesis
      using Cons.prems parse_lines_grows by (simp add: Let_def)
  next
    case False
    then show ?thesis using Cons by simp
  qed
qed

text \<open>Trimming the whole text does not change which table lines it has.\<close>

lemma str_split_nonempty: "str_split sep s \<noteq> []"
  by (induction s) (auto split: list.splits)

lemma str_split_snoc:
  "str_split sep (s @ [c]) =
     (if c = sep then str_split sep s @ [[]]
      else butlast (str_split sep s) @ [last (str_split sep s) @ [c]])"
proof (induction s)
  case Nil
  then show ?case by simp
next
  case (Cons x s)
  obtain w ws where w: "str_split sep s = w # ws"
    using str_split_nonempty[of sep s] by (cases "str_split sep s") auto
  show ?case
    using Cons w by (auto split: list.splits)
qed

lemma str_split_subset: "l \<in> set (str_split sep s) \<Longrightarrow> set l \<subseteq> set s"
proof (induction s arbitrary: l)
  case Nil
  then show ?case by simp
next
  case (Cons x s)
  obtain w ws where w: "str_split sep s = w # ws"
    using str_split_nonempty[of sep s] by (cases "str_split sep s") auto
  show ?case
  proof (cases "x = sep")
    case True
    then show ?thesis using Cons by auto
  next
    case False
    then have "l = x # w \<or> l \<in> set ws" using Cons.prems w by simp
    moreover have "set w \<subseteq> set s" using Cons.IH[of w] w by simp
    moreover have "l \<in> set ws \<Longrightarrow> set l \<subseteq> set s" using Cons.IH[of l] w by simp
    ultimately show ?thesis by auto
  qed
qed

lemma strip_Nil: "strip [] = []"
  by (simp add: strip_def lstrip_def rstrip_def)

lemma strip_subset: "set (strip s) \<subseteq> set s"
proof -
  have "set (dropWhile isspace (rev (dropWhile isspace s))) \<subseteq> set (rev (dropWhile isspace s))"
    by (rule set_dropWhileD[THEN subsetI]) 
  moreover have "set (dropWhile isspace s) \<subseteq> set s"
    by (rule set_dropWhileD[THEN subsetI])
  ultimately show ?thesis
    by (auto simp: strip_def lstrip_def rstrip_def)
qed

lemma strip_space_Cons: "isspace c \<Longrightarrow> strip (c # w) = strip w"
  by (simp add: strip_def lstrip_def)

lemma strip_space_snoc:
  assumes "isspace c"
  shows "strip (w @ [c]) = strip w"
proof (cases "\<forall>x\<in>set w. isspace x")
  case True
  then have a: "dropWhile isspace (w @ [c]) = []" and b: "dropWhile isspace w = []"
    using assms by simp_all
  show ?thesis unfolding strip_def lstrip_def a b ..
next
  case False
  then obtain x where "x \<in> set w" "\<not> isspace x" by blast
  then have "dropWhile isspace (w @ [c]) = dropWhile isspace w @ [c]"
    by (rule dropWhile_append1)
  then show ?thesis using assms by (simp add: strip_def lstrip_def rstrip_def)
qed

lemma not_table_line_Nil: "\<not> is_table_line []"
  by (simp add: is_table_line_def startswith_def)

lemma has_table_line_Cons:
  assumes "isspace c"
  shows "has_table_line (c # t) = has_table_line t"
proof -
  obtain w ws where w: "str_split newline t = w # ws"
    using str_split_nonempty[of newline t] by (cases "str_split newline t") auto
  show ?thesis
    using assms w
    by (simp add: has_table_line_def strip_space_Cons strip_Nil not_table_line_Nil)
qed

lemma has_table_line_snoc:
  assumes "isspace c"
  shows "has_table_line (t @ [c]) = has_table_line t"
proof -
  let ?xs = "str_split newline t"
  have ne: "?xs \<noteq> []" by (rule str_split_nonempty)
  then have dec: "?xs = butlast ?xs @ [last ?xs]" by simp
  have "has_table_line t =
      list_ex (\<lambda>l. is_table_line (strip l)) (butlast ?xs @ [last ?xs])"
    unfolding has_table_line_def using dec by simp
  then show ?thesis
    using assms
    by (simp add: has_table_line_def str_split_snoc strip_space_snoc strip_Nil not_table_line_Nil)
qed

lemma has_table_line_lstrip: "has_table_line (lstrip t) = has_table_line t"
  unfolding lstrip_def by (induction t) (simp_all add: has_table_line_Cons)

lemma has_table_line_rstrip_rev: "has_table_line (rev (dropWhile isspace r)) = has_table_line (rev r)"
  by (induction r) (simp_all add: has_table_line_snoc)

lemma has_table_line_strip: "has_table_line (strip t) = has_table_line t"
  using has_table_line_rstrip_rev[of "rev (lstrip t)"]
  by (simp add: strip_def rstrip_def has_table_line_lstrip)

lemma no_pipe_no_table_line:
  assumes "pipe \<notin> set t"
  shows "\<not> has_table_line t"
proof
  assume "has_table_line t"
  then obtain l where l: "l \<in> set (str_split newline t)" "is_table_line (strip l)"
    by (auto simp: has_table_line_def list_ex_iff)
  from l(2) have "pipe \<in> set (strip l)"
    by (auto simp: is_table_line_def startswith_def split: list.splits)
  then have "pipe \<in> set t"
    using strip_subset[of l] str_split_subset[OF l(1)] by auto
  then show False using assms by simp
qed


text \<open>
  Claim C5. Take the first block of table lines of a text: the lines \<open>pre\<close> before it are
  no table lines, \<open>h\<close> is its first line, \<open>block\<close> its other lines, and \<open>rest\<close> is empty
  or starts with a line that is no table line. The parser emits the cells of \<open>h\<close> as the
  header, skips each line of \<open>block\<close> that has as many cells as the header, all of them
  non-empty and made of \<open>-\<close>, \<open>:\<close> and space only, and emits every other line of \<open>block\<close>
  as a data row, whatever its cell count. The parser returns these rows unless all their
  cells are empty. On \<open>| a | b |\<close>, \<open>|---|---|\<close>, \<open>| 1 | 2 |\<close> it returns the header
  \<open>[a, b]\<close> and the data row \<open>[1, 2]\<close>.
\<close>

theorem separator_rows_skipped:
  assumes "str_split newline (strip t) = pre @ h # block @ rest"
    and "\<forall>l\<in>set pre. \<not> is_table_line (strip l)"
    and "is_table_line (strip h)"
    and "\<forall>l\<in>set block. is_table_line (strip l)"
    and "rest = [] \<or> \<not> is_table_line (strip (hd rest))"
  shows "emitted_rows t =
       cells_of (strip h) #
       map (\<lambda>l. cells_of (strip l))
         (filter (\<lambda>l. \<not> (length (cells_of (strip l)) = length (cells_of (strip h))
                  \<and> (\<forall>cell\<in>set (cells_of (strip l)).
                        cell \<noteq> [] \<and> set cell \<subseteq> {CHR ''-'', CHR '':'', CHR '' ''}))) block)
     \<and> parse_markdown_table_from_text t =
         (if \<exists>row\<in>set (emitted_rows t). \<exists>cell\<in>set row. cell \<noteq> []
          then Some (emitted_rows t) else None)
     \<and> parse_markdown_table_from_text ''| a | b |\<newline>|---|---|\<newline>| 1 | 2 |'' =
         Some [[''a'', ''b''], [''1'', ''2'']]"
proof -
  have sep: "is_separator cells \<longleftrightarrow>
      (\<forall>cell\<in>set cells. cell \<noteq> [] \<and> set cell \<subseteq> {CHR ''-'', CHR '':'', CHR '' ''})" for cells
    by (auto simp: is_separator_def list_all_iff)
  have rows: "emitted_rows t =
       cells_of (strip h) #
       map (\<lambda>l. cells_of (strip l))
         (filter (\<lambda>l. \<not> (length (cells_of (strip l)) = length (cells_of (strip h))
                  \<and> is_separator (cells_of (strip l)))) block)"
    unfolding emitted_rows_def assms(1)
    using assms(2-5) by (rule parse_lines_first_block)
  have "t \<noteq> []"
  proof
    assume "t = []"
    then have "pre @ h # block @ rest = [[]]"
      using assms(1) by (simp add: strip_Nil)
    then have "h = []"
      by (cases pre) simp_all
    then show False using assms(3) by (simp add: strip_Nil not_table_line_Nil)
  qed
  moreover have "emitted_rows t \<noteq> []"
    using rows by simp
  ultimately have res: "parse_markdown_table_from_text t =
         (if \<exists>row\<in>set (emitted_rows t). \<exists>cell\<in>set row. cell \<noteq> []
          then Some (emitted_rows t) else None)"
    by (simp add: parse_markdown_table_from_text_def Let_def list_ex_iff)
  have ex: "parse_markdown_table_from_text ''| a | b |\<newline>|---|---|\<newline>| 1 | 2 |'' =
         Some [[''a'', ''b''], [''1'', ''2'']]"
    by code_simp
  show ?thesis
    using rows res ex unfolding sep by blast
qed

theorem separator_rows_skipped_witness:
  "str_split newline (strip ''x\<newline>|a|b|\<newline>|-|:-|\<newline>|1|\<newline>|-|\<newline>y\<newline>|2|3|'') =
     [''x''] @ ''|a|b|'' # [''|-|:-|'', ''|1|'', ''|-|''] @ [''y'', ''|2|3|'']
   \<and> emitted_rows ''x\<newline>|a|b|\<newline>|-|:-|\<newline>|1|\<newline>|-|\<newline>y\<newline>|2|3|'' =
       [[''a'', ''b''], [''1''], [''-'']]"
proof -
  have a: "str_split newline (strip ''x\<newline>|a|b|\<newline>|-|:-|\<newline>|1|\<newline>|-|\<newline>y\<newline>|2|3|'') =
     [''x''] @ ''|a|b|'' # [''|-|:-|'', ''|1|'', ''|-|''] @ [''y'', ''|2|3|'']"
    by code_simp
  have b: "\<forall>l\<in>set [''x'']. \<not> is_table_line (strip l)"
    by code_simp
  have c: "is_table_line (strip ''|a|b|'')"
    by code_simp
  have d: "\<forall>l\<in>set [''|-|:-|'', ''|1|'', ''|-|'']. is_table_line (strip l)"
    by code_simp
  have e: "[''y'', ''|2|3|''] = [] \<or> \<not> is_table_line (strip (hd [''y'', ''|2|3|'']))"
    by code_simp
  have f: "emitted_rows ''x\<newline>|a|b|\<newline>|-|:-|\<newline>|1|\<newline>|-|\<newline>y\<newline>|2|3|'' =
       [[''a'', ''b''], [''1''], [''-'']]"
    by code_simp
  show ?thesis
    using separator_rows_skipped[OF a b c d e] a f by simp
qed

text \<open>
  Claim C6. The parser returns absent exactly when the input contains no table line or
  every cell of every emitted row, the header included, is empty; so it returns absent
  on a text without any pipe.
\<close>

theorem parser_absent_iff:
  "(parse_markdown_table_from_text t = None \<longleftrightarrow>
      \<not> has_table_line t \<or> (\<forall>row\<in>set (emitted_rows t). \<forall>cell\<in>set row. cell = []))
   \<and> (pipe \<notin> set t \<longrightarrow> parse_markdown_table_from_text t = None)"
proof -
  have empty: "emitted_rows t = [] \<longleftrightarrow> \<not> has_table_line t"
  proof -
    have "emitted_rows t = [] \<longleftrightarrow> \<not> has_table_line (strip t)"
      unfolding emitted_rows_def has_table_line_def list_ex_iff
      by (rule parse_lines_empty_iff) (simp_all add: initial_state_def)
    then show ?thesis by (simp add: has_table_line_strip)
  qed
  have iff: "parse_markdown_table_from_text t = None \<longleftrightarrow>
      \<not> has_table_line t \<or> (\<forall>row\<in>set (emitted_rows t). \<forall>cell\<in>set row. cell = [])"
  proof (cases "t = []")
    case True
    then show ?thesis
      by (simp add: parse_markdown_table_from_text_def has_table_line_def strip_Nil
          not_table_line_Nil)
  next
    case False
    then have "parse_markdown_table_from_text t = None \<longleftrightarrow>
       emitted_rows t = [] \<or> (\<forall>row\<in>set (emitted_rows t). \<forall>cell\<in>set row. cell = [])"
      by (simp add: parse_markdown_table_from_text_def Let_def list_ex_iff)
    then show ?thesis using empty by auto
  qed
  then show ?thesis using no_pipe_no_table_line[of t] by blast
qed

theorem parser_absent_iff_witness:
  "\<not> has_table_line ''plain text\<newline>a | b''
   \<and> parse_markdown_table_from_text ''plain text\<newline>a | b'' = None
   \<and> has_table_line ''| | |\<newline>|  |''
   \<and> emitted_rows ''| | |\<newline>|  |'' = [['''', ''''], ['''']]
   \<and> parse_markdown_table_from_text ''| | |\<newline>|  |'' = None
   \<and> has_table_line ''|a|''
   \<and> parse_markdown_table_from_text ''|a|'' = Some [[''a'']]"
proof -
  have a: "\<not> has_table_line ''plain text\<newline>a | b''"
    by code_simp
  have b: "has_table_line ''| | |\<newline>|  |''"
    "emitted_rows ''| | |\<newline>|  |'' = [['''', ''''], ['''']]"
    by code_simp+
  have c: "has_table_line ''|a|''" "parse_markdown_table_from_text ''|a|'' = Some [[''a'']]"
    by code_simp+
  show ?thesis
    using parser_absent_iff[of "''plain text\<newline>a | b''"]
      parser_absent_iff[of "''| | |\<newline>|  |''"] a b c
    by simp
qed


section \<open>Row widths\<close>

lemma build_row_dict:
  "build_row hs (PDict d) = Some (map (\<lambda>h. case map_of d h of None \<Rightarrow> PStr [] | Some v \<Rightarrow> v) hs)"
  by (induction hs) simp_all

lemma build_row_length: "build_row hs row_obj = Some row \<Longrightarrow> length row = length hs"
  by (induction hs arbitrary: row) (auto split: option.splits)

lemma build_row_is_dict:
  "hs \<noteq> [] \<Longrightarrow> build_row hs row_obj = Some row \<Longrightarrow> \<exists>d. row_obj = PDict d"
  by (cases hs; cases row_obj) simp_all

lemma build_rows_length: "build_rows hs objs = Some rows \<Longrightarrow> length rows = length objs"
  by (induction objs arbitrary: rows) (auto split: option.splits)

lemma build_rows_widths:
  "build_rows hs objs = Some rows \<Longrightarrow> row \<in> set rows \<Longrightarrow> length row = length hs"
  by (induction objs arbitrary: rows) (auto split: option.splits dest: build_row_length)

lemma build_rows_dicts:
  assumes "hs \<noteq> []"
  shows "build_rows hs objs = Some rows \<Longrightarrow>
     \<exists>ds. length ds = length objs \<and>
       rows = map (\<lambda>d. map (\<lambda>h. case map_of d h of None \<Rightarrow> PStr [] | Some v \<Rightarrow> v) hs) ds"
proof (induction objs arbitrary: rows)
  case Nil
  then show ?case by simp
next
  case (Cons obj objs)
  from Cons.prems obtain row rest where
    row: "build_row hs obj = Some row" and rest: "build_rows hs objs = Some rest"
    and rows: "rows = row # rest"
    by (auto split: option.splits)
  obtain d where d: "obj = PDict d"
    using build_row_is_dict[OF assms row] by blast
  obtain ds where ds: "length ds = length objs"
    "rest = map (\<lambda>d. map (\<lambda>h. case map_of d h of None \<Rightarrow> PStr [] | Some v \<Rightarrow> v) hs) ds"
    using Cons.IH[OF rest] by blast
  have "row = map (\<lambda>h. case map_of d h of None \<Rightarrow> PStr [] | Some v \<Rightarrow> v) hs"
    using row d by (simp add: build_row_dict)
  then have "length (d # ds) = length (obj # objs) \<and>
       rows = map (\<lambda>d. map (\<lambda>h. case map_of d h of None \<Rightarrow> PStr [] | Some v \<Rightarrow> v) hs) (d # ds)"
    using ds rows by simp
  then show ?case by blast
qed

lemma py_iter_truthy: "truthy v \<Longrightarrow> py_iter v = Some objs \<Longrightarrow> objs \<noteq> []"
  by (cases v) auto

text \<open>A table of the structured tier: the header row and at least one row, one for each
  element of \<open>rows\<close>.\<close>

lemma convert_to_table_shape:
  assumes "convert_to_table hs parsed_data = Some t"
  shows "\<exists>objs rows. objs \<noteq> [] \<and> build_rows hs objs = Some rows \<and> t = map PStr hs # rows"
proof -
  from assms obtain d where d: "parsed_data = PDict d"
    by (cases parsed_data) (simp_all add: convert_to_table_def)
  from assms d obtain v where v: "map_of d ''rows'' = Some v" "truthy v"
    by (auto simp: convert_to_table_def split: option.splits if_splits)
  from assms d v obtain objs where objs: "py_iter v = Some objs"
    by (auto simp: convert_to_table_def split: option.splits)
  from assms d v objs obtain rows where rows: "build_rows hs objs = Some rows" "t = map PStr hs # rows"
    by (auto simp: convert_to_table_def split: option.splits)
  have "objs \<noteq> []"
    using v(2) objs by (rule py_iter_truthy)
  then show ?thesis using rows by blast
qed

lemma convert_to_table_widths:
  assumes "convert_to_table hs parsed_data = Some t"
  shows "length t > 1 \<and> hd t = map PStr hs \<and> (\<forall>row\<in>set (tl t). length row = length hs)"
proof -
  obtain objs rows where r: "objs \<noteq> []" "build_rows hs objs = Some rows" "t = map PStr hs # rows"
    using convert_to_table_shape[OF assms] by blast
  have "length rows = length objs"
    using r(2) by (rule build_rows_length)
  then have "rows \<noteq> []" using r(1) by auto
  then show ?thesis
    using r(3) build_rows_widths[OF r(2)] by auto
qed

lemma structured_tier_widths:
  assumes "structured_tier sdk chat raw_text hs key = Inr (Some t)"
  shows "length t > 1 \<and> hd t = map PStr hs \<and> (\<forall>row\<in>set (tl t). length row = length hs)"
proof -
  from assms obtain k parsed_data where "convert_to_table hs parsed_data = Some t"
    by (auto simp: structured_tier_def format_ocr_with_structured_output_def
        split: option.splits if_splits sum.splits llm_reply.splits)
  then show ?thesis by (rule convert_to_table_widths)
qed

lemma fit_row_length: "length (fit_row n row) = n"
  by (simp add: fit_row_def)

lemma format_parsed_widths:
  "hd (format_parsed hs parsed) = map PStr hs \<and>
   (\<forall>row\<in>set (tl (format_parsed hs parsed)). length row = length hs)"
  by (auto simp: format_parsed_def Let_def fit_row_length)

lemma format_parsed_rows:
  "parsed \<noteq> [] \<Longrightarrow>
   format_parsed hs parsed = map PStr hs # map (\<lambda>row. map PStr (fit_row (length hs) row)) (tl parsed)"
  by (cases parsed; cases "tl parsed") (simp_all add: format_parsed_def Let_def)

lemma page_table_nonempty: "page_table p = Some parsed \<Longrightarrow> parsed \<noteq> []"
  by (auto simp: page_table_def split: option.splits if_splits)

text \<open>The fallback uses the first page with a table.\<close>

lemma markdown_fallback_None:
  "markdown_fallback pages hs = None \<longleftrightarrow> (\<forall>p\<in>set pages. page_table p = None)"
  by (induction pages) (auto split: option.splits)

lemma markdown_fallback_first:
  "\<forall>q\<in>set pre. page_table q = None \<Longrightarrow> page_table p = Some parsed \<Longrightarrow>
   markdown_fallback (pre @ p # rest) hs = Some (format_parsed hs parsed)"
  by (induction pre) simp_all

lemma markdown_fallback_Some:
  "markdown_fallback pages hs = Some t \<Longrightarrow>
   \<exists>p\<in>set pages. \<exists>parsed. page_table p = Some parsed \<and> t = format_parsed hs parsed"
  by (induction pages) (auto split: option.splits)

lemma markdown_fallback_widths:
  assumes "markdown_fallback pages hs = Some t"
  shows "t \<noteq> [] \<and> hd t = map PStr hs \<and> (\<forall>row\<in>set (tl t). length row = length hs)"
proof -
  obtain parsed where "t = format_parsed hs parsed"
    using markdown_fallback_Some[OF assms] by blast
  then show ?thesis
    using format_parsed_widths[of hs parsed] by (simp add: format_parsed_def Let_def)
qed

lemma extract_cases:
  assumes "extract_table_with_headers sdk chat resp hs key = Inr (Some t)"
  shows "\<exists>pages raw_text. resp = Response pages \<and> collect_text pages [] = Inr raw_text \<and>
     (structured_tier sdk chat raw_text hs key = Inr (Some t) \<or>
      structured_tier sdk chat raw_text hs key = Inr None \<and> markdown_fallback pages hs = Some t)"
  using assms
  by (auto simp: extract_table_with_headers_def
      split: ocr_response.splits if_splits sum.splits option.splits)

lemma extract_widths:
  assumes "extract_table_with_headers sdk chat resp hs key = Inr (Some t)"
  shows "t \<noteq> [] \<and> hd t = map PStr hs \<and> (\<forall>row\<in>set (tl t). length row = length hs)"
proof -
  obtain pages raw_text where
    "structured_tier sdk chat raw_text hs key = Inr (Some t) \<or> markdown_fallback pages hs = Some t"
    using extract_cases[OF assms] by blast
  then show ?thesis
  proof
    assume "structured_tier sdk chat raw_text hs key = Inr (Some t)"
    then show ?thesis using structured_tier_widths by fastforce
  next
    assume "markdown_fallback pages hs = Some t"
    then show ?thesis by (rule markdown_fallback_widths)
  qed
qed

section \<open>The two tiers\<close>

lemma extract_fallback:
  assumes "collect_text pages [] = Inr raw_text"
    and "structured_tier sdk chat raw_text hs key = Inr None"
  shows "extract_table_with_headers sdk chat (Response pages) hs key =
     Inr (markdown_fallback pages hs)"
  using assms by (cases pages) (simp_all add: extract_table_with_headers_def)

text \<open>
  Claim C2, as stated, fails: the chat reply is no JSON and the page holds a table with a
  header row only, so neither tier yields a data row, and the result is the declared
  header row alone.
\<close>

theorem header_only_table_counterexample:
  "structured_tier True (\<lambda>k t h. NotJson) ''| a | b |\<newline>'' [''Name'', ''Company''] (Some ''key'')
     = Inr None
   \<and> parse_markdown_table_from_text ''| a | b |'' = Some [[''a'', ''b'']]
   \<and> extract_table_with_headers True (\<lambda>k t h. NotJson)
       (Response [PageObject (Str ''| a | b |'') Absent]) [''Name'', ''Company''] (Some ''key'')
     = Inr (Some [[PStr ''Name'', PStr ''Company'']])"
  by code_simp

text \<open>
  Claim C2, amended. When the structured tier yields no table,
  \<open>extract_table_with_headers\<close> returns absent exactly when the parser finds no table in
  any page; otherwise it returns the declared header row followed by the fitted data rows
  of the first table found, which is the header row alone when that table has no data
  row. The structured tier never yields a table without data rows. For a table without
  data rows the capture cycle leaves the file as it is.
\<close>

theorem extract_absent_iff:
  assumes "collect_text pages [] = Inr raw_text"
    and "structured_tier sdk chat raw_text hs key = Inr None"
  shows "(extract_table_with_headers sdk chat (Response pages) hs key = Inr None \<longleftrightarrow>
        (\<forall>p\<in>set pages. page_table p = None))
     \<and> (pages = pre @ p # rest \<and> (\<forall>q\<in>set pre. page_table q = None) \<and>
        page_table p = Some parsed \<longrightarrow>
          extract_table_with_headers sdk chat (Response pages) hs key =
            Inr (Some (map PStr hs # map (\<lambda>row. map PStr (fit_row (length hs) row)) (tl parsed))))
     \<and> (structured_tier sdk' chat' raw_text' hs key' = Inr (Some t') \<longrightarrow> length t' > 1)
     \<and> (io_screenshot io = Inr u \<and>
        perform_ocr_on_image (cfg_sdk_available cfg) (io_ocr_call io) = Inr resp \<and>
        extract_table_with_headers (cfg_sdk_available cfg) (io_chat io) resp
          (cfg_target_headers cfg) (cfg_api_key cfg) = Inr (Some t) \<and> length t \<le> 1 \<longrightarrow>
          capture_cycle cfg io f = f)"
proof -
  have ex: "extract_table_with_headers sdk chat (Response pages) hs key =
     Inr (markdown_fallback pages hs)"
    using assms by (rule extract_fallback)
  have a: "extract_table_with_headers sdk chat (Response pages) hs key = Inr None \<longleftrightarrow>
        (\<forall>p\<in>set pages. page_table p = None)"
    by (simp add: ex markdown_fallback_None)
  have b: "pages = pre @ p # rest \<and> (\<forall>q\<in>set pre. page_table q = None) \<and>
        page_table p = Some parsed \<longrightarrow>
          extract_table_with_headers sdk chat (Response pages) hs key =
            Inr (Some (map PStr hs # map (\<lambda>row. map PStr (fit_row (length hs) row)) (tl parsed)))"
  proof
    assume h: "pages = pre @ p # rest \<and> (\<forall>q\<in>set pre. page_table q = None) \<and>
        page_table p = Some parsed"
    then have "markdown_fallback pages hs = Some (format_parsed hs parsed)"
      using markdown_fallback_first[of pre p parsed rest hs] by simp
    moreover have "parsed \<noteq> []"
      using h page_table_nonempty by blast
    ultimately show "extract_table_with_headers sdk chat (Response pages) hs key =
            Inr (Some (map PStr hs # map (\<lambda>row. map PStr (fit_row (length hs) row)) (tl parsed)))"
      by (simp add: ex format_parsed_rows)
  qed
  have c: "structured_tier sdk' chat' raw_text' hs key' = Inr (Some t') \<longrightarrow> length t' > 1"
    using structured_tier_widths by blast
  have d: "io_screenshot io = Inr u \<and>
        perform_ocr_on_image (cfg_sdk_available cfg) (io_ocr_call io) = Inr resp \<and>
        extract_table_with_headers (cfg_sdk_available cfg) (io_chat io) resp
          (cfg_target_headers cfg) (cfg_api_key cfg) = Inr (Some t) \<and> length t \<le> 1 \<longrightarrow>
          capture_cycle cfg io f = f"
    by (simp add: capture_cycle_def cycle_body_def)
  show ?thesis using a b c d by blast
qed

theorem extract_absent_iff_witness:
  "collect_text [PageObject (Str ''no table'') Absent, PageObject (Str ''| a | b |'') Absent] []
     = Inr ''no table\<newline>| a | b |\<newline>''
   \<and> structured_tier True (\<lambda>k t h. NotJson) ''no table\<newline>| a | b |\<newline>'' [''Name'', ''Company'']
       (Some ''key'') = Inr None
   \<and> page_table (PageObject (Str ''no table'') Absent) = None
   \<and> page_table (PageObject (Str ''| a | b |'') Absent) = Some [[''a'', ''b'']]
   \<and> extract_table_with_headers True (\<lambda>k t h. NotJson)
       (Response [PageObject (Str ''no table'') Absent, PageObject (Str ''| a | b |'') Absent])
       [''Name'', ''Company''] (Some ''key'') = Inr (Some [[PStr ''Name'', PStr ''Company'']])"
proof -
  have a: "collect_text [PageObject (Str ''no table'') Absent, PageObject (Str ''| a | b |'') Absent] []
     = Inr ''no table\<newline>| a | b |\<newline>''"
    by code_simp
  have b: "structured_tier True (\<lambda>k t h. NotJson) ''no table\<newline>| a | b |\<newline>''
       [''Name'', ''Company''] (Some ''key'') = Inr None"
    by code_simp
  have c: "page_table (PageObject (Str ''no table'') Absent) = None"
    by code_simp
  have d: "page_table (PageObject (Str ''| a | b |'') Absent) = Some [[''a'', ''b'']]"
    by code_simp
  have e: "[PageObject (Str ''no table'') Absent, PageObject (Str ''| a | b |'') Absent] =
      [PageObject (Str ''no table'') Absent] @ PageObject (Str ''| a | b |'') Absent # []"
    by simp
  have pre: "\<forall>q\<in>set [PageObject (Str ''no table'') Absent]. page_table q = None"
    using c by simp
  have f: "map PStr [''Name'', ''Company''] #
      map (\<lambda>row. map PStr (fit_row (length [''Name'', ''Company'']) row)) (tl [[''a'', ''b'']])
      = [[PStr ''Name'', PStr ''Company'']]"
    by simp
  have "extract_table_with_headers True (\<lambda>k t h. NotJson)
       (Response [PageObject (Str ''no table'') Absent, PageObject (Str ''| a | b |'') Absent])
       [''Name'', ''Company''] (Some ''key'') = Inr (Some [[PStr ''Name'', PStr ''Company'']])"
    using extract_absent_iff[OF a b, of "[PageObject (Str ''no table'') Absent]"
        "PageObject (Str ''| a | b |'') Absent" "[]" "[[''a'', ''b'']]",
        THEN conjunct2, THEN conjunct1] e pre d
    unfolding f by blast
  then show ?thesis
    using a b c d by blast
qed
text \<open>
  Claim C10. When the chat reply is a JSON object whose \<open>rows\<close> key is missing or holds an
  empty array, \<open>format_ocr_with_structured_output\<close> returns \<open>None\<close>, and
  \<open>extract_table_with_headers\<close> returns what the markdown fallback returns, which is what
  it returns when the reply is no JSON.
\<close>

theorem empty_rows_fall_through:
  assumes "collect_text pages [] = Inr raw_text"
    and "chat k (strip raw_text) hs = Json (PDict d)"
    and "map_of d ''rows'' = None \<or> map_of d ''rows'' = Some (PList [])"
  shows "format_ocr_with_structured_output True chat k (strip raw_text) hs = Inr None
     \<and> extract_table_with_headers True chat (Response pages) hs (Some k) =
         Inr (markdown_fallback pages hs)
     \<and> extract_table_with_headers sdk chat (Response pages) hs (Some k) =
         extract_table_with_headers sdk (\<lambda>k t h. NotJson) (Response pages) hs (Some k)"
proof -
  have conv: "convert_to_table hs (PDict d) = None"
    using assms(3) by (auto simp: convert_to_table_def)
  have fmt: "format_ocr_with_structured_output s chat k (strip raw_text) hs =
      format_ocr_with_structured_output s (\<lambda>k t h. NotJson) k (strip raw_text) hs" for s
    using assms(2) conv by (simp add: format_ocr_with_structured_output_def)
  have a: "format_ocr_with_structured_output True chat k (strip raw_text) hs = Inr None"
    using assms(2) conv by (simp add: format_ocr_with_structured_output_def)
  have tier: "structured_tier s chat raw_text hs (Some k) =
      structured_tier s (\<lambda>k t h. NotJson) raw_text hs (Some k)" for s
    by (simp add: structured_tier_def fmt)
  have "structured_tier True chat raw_text hs (Some k) = Inr None"
    by (simp add: structured_tier_def a)
  then have b: "extract_table_with_headers True chat (Response pages) hs (Some k) =
         Inr (markdown_fallback pages hs)"
    using assms(1) extract_fallback by blast
  have c: "extract_table_with_headers sdk chat (Response pages) hs (Some k) =
         extract_table_with_headers sdk (\<lambda>k t h. NotJson) (Response pages) hs (Some k)"
    using assms(1) by (simp add: extract_table_with_headers_def tier)
  show ?thesis using a b c by blast
qed

theorem empty_rows_fall_through_witness:
  "collect_text [PageObject (Str ''| a |\<newline>| 1 |'') Absent] [] = Inr ''| a |\<newline>| 1 |\<newline>''
   \<and> map_of [(''rows'', PList [])] ''rows'' = Some (PList [])
   \<and> format_ocr_with_structured_output True (\<lambda>k t h. Json (PDict [(''rows'', PList [])])) ''key''
        (strip ''| a |\<newline>| 1 |\<newline>'') [''Name''] = Inr None
   \<and> extract_table_with_headers True (\<lambda>k t h. Json (PDict [(''rows'', PList [])]))
        (Response [PageObject (Str ''| a |\<newline>| 1 |'') Absent]) [''Name''] (Some ''key'') =
       Inr (Some [[PStr ''Name''], [PStr ''1'']])"
proof -
  have a: "collect_text [PageObject (Str ''| a |\<newline>| 1 |'') Absent] [] = Inr ''| a |\<newline>| 1 |\<newline>''"
    by code_simp
  have b: "(\<lambda>k t h. Json (PDict [(''rows'', PList [])])) ''key'' (strip ''| a |\<newline>| 1 |\<newline>'') [''Name'']
      = Json (PDict [(''rows'', PList [])])"
    by simp
  have c: "map_of [(''rows'', PList [])] ''rows'' = None \<or>
      map_of [(''rows'', PList [])] ''rows'' = Some (PList [])"
    by simp
  have d: "markdown_fallback [PageObject (Str ''| a |\<newline>| 1 |'') Absent] [''Name''] =
      Some [[PStr ''Name''], [PStr ''1'']]"
    by code_simp
  note th = empty_rows_fall_through[of "[PageObject (Str ''| a |\<newline>| 1 |'') Absent]"
        "''| a |\<newline>| 1 |\<newline>''" "\<lambda>k t h. Json (PDict [(''rows'', PList [])])" "''key''" "[''Name'']"
        "[(''rows'', PList [])]" True, OF a b c]
  have e: "format_ocr_with_structured_output True (\<lambda>k t h. Json (PDict [(''rows'', PList [])])) ''key''
        (strip ''| a |\<newline>| 1 |\<newline>'') [''Name''] = Inr None"
    using th by (rule conjunct1)
  have f: "extract_table_with_headers True (\<lambda>k t h. Json (PDict [(''rows'', PList [])]))
        (Response [PageObject (Str ''| a |\<newline>| 1 |'') Absent]) [''Name''] (Some ''key'') =
       Inr (Some [[PStr ''Name''], [PStr ''1'']])"
    using th[THEN conjunct2, THEN conjunct1] unfolding d .
  show ?thesis
    using a e f by simp
qed
section \<open>The rows of the two tiers\<close>

lemma build_rows_of_dicts:
  "build_rows hs (map PDict ds) =
     Some (map (\<lambda>d. map (\<lambda>h. case map_of d h of None \<Rightarrow> PStr [] | Some v \<Rightarrow> v) hs) ds)"
  by (induction ds) (simp_all add: build_row_dict)

lemma build_rows_all_dicts:
  assumes "hs \<noteq> []"
  shows "build_rows hs objs = Some rows \<Longrightarrow> \<exists>ds. objs = map PDict ds"
proof (induction objs arbitrary: rows)
  case Nil
  then show ?case by simp
next
  case (Cons obj objs)
  from Cons.prems obtain row rest where
    row: "build_row hs obj = Some row" and rest: "build_rows hs objs = Some rest"
    by (auto split: option.splits)
  obtain d where d: "obj = PDict d"
    using build_row_is_dict[OF assms row] by blast
  obtain ds where ds: "objs = map PDict ds"
    using Cons.IH[OF rest] by blast
  have "obj # objs = map PDict (d # ds)"
    using d ds by simp
  then show ?case by (rule exI)
qed

lemma py_iter_of_dicts:
  assumes "py_iter v = Some (map PDict ds)" and "ds \<noteq> []"
  shows "v = PList (map PDict ds)"
proof (cases v)
  case (PStr s)
  then show ?thesis using assms by (cases s; cases ds) auto
next
  case (PDict kvs)
  then show ?thesis using assms by (cases kvs; cases ds) auto
qed (use assms in auto)

text \<open>The structured tier's conversion succeeds on the dicts of \<open>rows\<close> and, with at
  least one header, on nothing else.\<close>

lemma convert_to_table_dicts:
  assumes "map_of d ''rows'' = Some (PList (map PDict ds))" and "ds \<noteq> []"
  shows "convert_to_table hs (PDict d) =
     Some (map PStr hs #
           map (\<lambda>row_obj. map (\<lambda>h. case map_of row_obj h of None \<Rightarrow> PStr [] | Some v \<Rightarrow> v) hs) ds)"
  using assms by (simp add: convert_to_table_def build_rows_of_dicts)

lemma convert_to_table_only_dicts:
  assumes "hs \<noteq> []" and "convert_to_table hs parsed_data = Some t"
  shows "\<exists>d ds. parsed_data = PDict d \<and> map_of d ''rows'' = Some (PList (map PDict ds)) \<and>
     ds \<noteq> [] \<and>
     t = map PStr hs #
         map (\<lambda>row_obj. map (\<lambda>h. case map_of row_obj h of None \<Rightarrow> PStr [] | Some v \<Rightarrow> v) hs) ds"
proof -
  from assms(2) obtain d where d: "parsed_data = PDict d"
    by (cases parsed_data) (simp_all add: convert_to_table_def)
  from assms(2) d obtain v where v: "map_of d ''rows'' = Some v" "truthy v"
    by (auto simp: convert_to_table_def split: option.splits if_splits)
  from assms(2) d v obtain objs where objs: "py_iter v = Some objs"
    by (auto simp: convert_to_table_def split: option.splits)
  from assms(2) d v objs obtain rows where
    rows: "build_rows hs objs = Some rows" "t = map PStr hs # rows"
    by (auto simp: convert_to_table_def split: option.splits)
  obtain ds where ds: "objs = map PDict ds"
    using build_rows_all_dicts[OF assms(1) rows(1)] by blast
  have ne: "ds \<noteq> []"
    using py_iter_truthy[OF v(2) objs] ds by auto
  have "v = PList (map PDict ds)"
    using objs ds ne py_iter_of_dicts by blast
  moreover have "rows =
      map (\<lambda>row_obj. map (\<lambda>h. case map_of row_obj h of None \<Rightarrow> PStr [] | Some v \<Rightarrow> v) hs) ds"
    using rows(1) ds by (simp add: build_rows_of_dicts)
  ultimately show ?thesis using d v(1) ne rows(2) by blast
qed

lemma extract_structured:
  assumes "pages \<noteq> []" and "collect_text pages [] = Inr raw_text"
    and "strip raw_text \<noteq> []" and "k \<noteq> []"
    and "chat k (strip raw_text) hs = Json (PDict d)"
    and "map_of d ''rows'' = Some (PList (map PDict ds))" and "ds \<noteq> []"
  shows "extract_table_with_headers True chat (Response pages) hs (Some k) =
     Inr (Some (map PStr hs #
           map (\<lambda>row_obj. map (\<lambda>h. case map_of row_obj h of None \<Rightarrow> PStr [] | Some v \<Rightarrow> v) hs) ds))"
proof -
  have "format_ocr_with_structured_output True chat k (strip raw_text) hs =
      Inr (Some (map PStr hs #
           map (\<lambda>row_obj. map (\<lambda>h. case map_of row_obj h of None \<Rightarrow> PStr [] | Some v \<Rightarrow> v) hs) ds))"
    using assms(5) convert_to_table_dicts[OF assms(6,7)]
    by (simp add: format_ocr_with_structured_output_def)
  then have "structured_tier True chat raw_text hs (Some k) =
      Inr (Some (map PStr hs #
           map (\<lambda>row_obj. map (\<lambda>h. case map_of row_obj h of None \<Rightarrow> PStr [] | Some v \<Rightarrow> v) hs) ds))"
    using assms(3,4) by (simp add: structured_tier_def)
  then show ?thesis
    using assms(1,2) by (simp add: extract_table_with_headers_def)
qed

lemma markdown_fallback_first_page:
  "markdown_fallback pages hs = Some t \<Longrightarrow>
   \<exists>pre p rest parsed. pages = pre @ p # rest \<and> (\<forall>q\<in>set pre. page_table q = None) \<and>
     page_table p = Some parsed \<and> t = format_parsed hs parsed"
proof (induction pages)
  case Nil
  then show ?case by simp
next
  case (Cons a pages)
  show ?case
  proof (cases "page_table a")
    case None
    then have "markdown_fallback pages hs = Some t"
      using Cons.prems by simp
    then obtain pre p rest parsed where
      h: "pages = pre @ p # rest" "\<forall>q\<in>set pre. page_table q = None"
        "page_table p = Some parsed" "t = format_parsed hs parsed"
      using Cons.IH by blast
    have "a # pages = (a # pre) @ p # rest" "\<forall>q\<in>set (a # pre). page_table q = None"
      using h(1,2) None by simp_all
    then show ?thesis using h(3,4) by blast
  next
    case (Some parsed)
    then have "t = format_parsed hs parsed"
      using Cons.prems by simp
    moreover have "a # pages = [] @ a # pages" "\<forall>q\<in>set []. page_table q = None"
      by simp_all
    ultimately show ?thesis using Some by blast
  qed
qed

text \<open>
  Claim C1. Every table that \<open>extract_table_with_headers\<close> returns starts with the declared
  header row, and each of its data rows has exactly as many cells as there are headers.
  It is the table of one of the two tiers. When the chat reply is a JSON object whose
  \<open>rows\<close> holds the dicts \<open>ds\<close>, the result is the header row and, for each dict of \<open>ds\<close>
  in order, the row of the values found under each header, the empty string where the
  dict has no such key; and a table of the structured tier comes from such a reply only.
  When the structured tier yields nothing, the result is the header row and, for each
  row after the first of the table parsed from the first page that has one, that row
  padded with empty strings when shorter than the header count and cut to its first cells
  when longer.
\<close>

theorem extracted_rows_width:
  "(extract_table_with_headers sdk chat resp hs key = Inr (Some t) \<longrightarrow>
      t \<noteq> [] \<and> hd t = map PStr hs \<and> (\<forall>row\<in>set (tl t). length row = length hs) \<and>
      (\<exists>pages raw_text. resp = Response pages \<and> collect_text pages [] = Inr raw_text \<and>
         (structured_tier sdk chat raw_text hs key = Inr (Some t) \<or>
          structured_tier sdk chat raw_text hs key = Inr None \<and>
          markdown_fallback pages hs = Some t)))
   \<and> (pages \<noteq> [] \<and> collect_text pages [] = Inr raw_text \<and> strip raw_text \<noteq> [] \<and> k \<noteq> [] \<and>
      chat k (strip raw_text) hs = Json (PDict d) \<and>
      map_of d ''rows'' = Some (PList (map PDict ds)) \<and> ds \<noteq> [] \<longrightarrow>
        extract_table_with_headers True chat (Response pages) hs (Some k) =
          Inr (Some (map PStr hs #
            map (\<lambda>row_obj. map (\<lambda>h. case map_of row_obj h of None \<Rightarrow> PStr [] | Some v \<Rightarrow> v) hs)
              ds)))
   \<and> (hs \<noteq> [] \<and> structured_tier sdk chat raw_text hs key = Inr (Some t') \<longrightarrow>
      (\<exists>k' d' ds'. key = Some k' \<and> chat k' (strip raw_text) hs = Json (PDict d') \<and>
         map_of d' ''rows'' = Some (PList (map PDict ds')) \<and> ds' \<noteq> [] \<and>
         t' = map PStr hs #
            map (\<lambda>row_obj. map (\<lambda>h. case map_of row_obj h of None \<Rightarrow> PStr [] | Some v \<Rightarrow> v) hs)
              ds'))
   \<and> (collect_text pages [] = Inr raw_text \<and> structured_tier sdk chat raw_text hs key = Inr None \<and>
      pages = pre @ p # rest \<and> (\<forall>q\<in>set pre. page_table q = None) \<and>
      page_table p = Some parsed \<longrightarrow>
        extract_table_with_headers sdk chat (Response pages) hs key =
          Inr (Some (map PStr hs # map (\<lambda>row. map PStr (fit_row (length hs) row)) (tl parsed))))
   \<and> (markdown_fallback pages hs = Some t'' \<longrightarrow>
      (\<exists>pre' p' rest' parsed'. pages = pre' @ p' # rest' \<and>
         (\<forall>q\<in>set pre'. page_table q = None) \<and> page_table p' = Some parsed' \<and>
         t'' = map PStr hs # map (\<lambda>row. map PStr (fit_row (length hs) row)) (tl parsed')))
   \<and> (length row < length hs \<longrightarrow>
        fit_row (length hs) row = row @ replicate (length hs - length row) [])
   \<and> (length row \<ge> length hs \<longrightarrow> fit_row (length hs) row = take (length hs) row)"
proof -
  have a: "extract_table_with_headers sdk chat resp hs key = Inr (Some t) \<longrightarrow>
      t \<noteq> [] \<and> hd t = map PStr hs \<and> (\<forall>row\<in>set (tl t). length row = length hs) \<and>
      (\<exists>pages raw_text. resp = Response pages \<and> collect_text pages [] = Inr raw_text \<and>
         (structured_tier sdk chat raw_text hs key = Inr (Some t) \<or>
          structured_tier sdk chat raw_text hs key = Inr None \<and>
          markdown_fallback pages hs = Some t))"
    using extract_widths extract_cases by blast
  have b: "pages \<noteq> [] \<and> collect_text pages [] = Inr raw_text \<and> strip raw_text \<noteq> [] \<and> k \<noteq> [] \<and>
      chat k (strip raw_text) hs = Json (PDict d) \<and>
      map_of d ''rows'' = Some (PList (map PDict ds)) \<and> ds \<noteq> [] \<longrightarrow>
        extract_table_with_headers True chat (Response pages) hs (Some k) =
          Inr (Some (map PStr hs #
            map (\<lambda>row_obj. map (\<lambda>h. case map_of row_obj h of None \<Rightarrow> PStr [] | Some v \<Rightarrow> v) hs)
              ds))"
    using extract_structured by blast
  have c: "hs \<noteq> [] \<and> structured_tier sdk chat raw_text hs key = Inr (Some t') \<longrightarrow>
      (\<exists>k' d' ds'. key = Some k' \<and> chat k' (strip raw_text) hs = Json (PDict d') \<and>
         map_of d' ''rows'' = Some (PList (map PDict ds')) \<and> ds' \<noteq> [] \<and>
         t' = map PStr hs #
            map (\<lambda>row_obj. map (\<lambda>h. case map_of row_obj h of None \<Rightarrow> PStr [] | Some v \<Rightarrow> v) hs)
              ds')"
  proof
    assume h: "hs \<noteq> [] \<and> structured_tier sdk chat raw_text hs key = Inr (Some t')"
    then obtain k' parsed_data where
      k: "key = Some k'" "chat k' (strip raw_text) hs = Json parsed_data"
        "convert_to_table hs parsed_data = Some t'"
      by (auto simp: structured_tier_def format_ocr_with_structured_output_def
          split: option.splits if_splits sum.splits llm_reply.splits)
    obtain d' ds' where "parsed_data = PDict d'"
      "map_of d' ''rows'' = Some (PList (map PDict ds'))" "ds' \<noteq> []"
      "t' = map PStr hs #
         map (\<lambda>row_obj. map (\<lambda>h. case map_of row_obj h of None \<Rightarrow> PStr [] | Some v \<Rightarrow> v) hs) ds'"
      using convert_to_table_only_dicts[OF _ k(3)] h by blast
    then show "\<exists>k' d' ds'. key = Some k' \<and> chat k' (strip raw_text) hs = Json (PDict d') \<and>
         map_of d' ''rows'' = Some (PList (map PDict ds')) \<and> ds' \<noteq> [] \<and>
         t' = map PStr hs #
            map (\<lambda>row_obj. map (\<lambda>h. case map_of row_obj h of None \<Rightarrow> PStr [] | Some v \<Rightarrow> v) hs)
              ds'"
      using k(1,2) by blast
  qed
  have d: "collect_text pages [] = Inr raw_text \<and> structured_tier sdk chat raw_text hs key = Inr None \<and>
      pages = pre @ p # rest \<and> (\<forall>q\<in>set pre. page_table q = None) \<and>
      page_table p = Some parsed \<longrightarrow>
        extract_table_with_headers sdk chat (Response pages) hs key =
          Inr (Some (map PStr hs # map (\<lambda>row. map PStr (fit_row (length hs) row)) (tl parsed)))"
  proof
    assume h: "collect_text pages [] = Inr raw_text \<and>
      structured_tier sdk chat raw_text hs key = Inr None \<and>
      pages = pre @ p # rest \<and> (\<forall>q\<in>set pre. page_table q = None) \<and>
      page_table p = Some parsed"
    then have "extract_table_with_headers sdk chat (Response pages) hs key =
        Inr (markdown_fallback pages hs)"
      using extract_fallback by blast
    moreover have "markdown_fallback pages hs = Some (format_parsed hs parsed)"
      using h markdown_fallback_first[of pre p parsed rest hs] by simp
    moreover have "parsed \<noteq> []"
      using h page_table_nonempty by blast
    ultimately show "extract_table_with_headers sdk chat (Response pages) hs key =
          Inr (Some (map PStr hs # map (\<lambda>row. map PStr (fit_row (length hs) row)) (tl parsed)))"
      by (simp add: format_parsed_rows)
  qed
  have e: "markdown_fallback pages hs = Some t'' \<longrightarrow>
      (\<exists>pre' p' rest' parsed'. pages = pre' @ p' # rest' \<and>
         (\<forall>q\<in>set pre'. page_table q = None) \<and> page_table p' = Some parsed' \<and>
         t'' = map PStr hs # map (\<lambda>row. map PStr (fit_row (length hs) row)) (tl parsed'))"
  proof
    assume "markdown_fallback pages hs = Some t''"
    then obtain pre' p' rest' parsed' where
      h: "pages = pre' @ p' # rest'" "\<forall>q\<in>set pre'. page_table q = None"
        "page_table p' = Some parsed'" "t'' = format_parsed hs parsed'"
      using markdown_fallback_first_page by blast
    have "parsed' \<noteq> []"
      using h(3) by (rule page_table_nonempty)
    then have "t'' = map PStr hs # map (\<lambda>row. map PStr (fit_row (length hs) row)) (tl parsed')"
      using h(4) by (simp add: format_parsed_rows)
    then show "\<exists>pre' p' rest' parsed'. pages = pre' @ p' # rest' \<and>
         (\<forall>q\<in>set pre'. page_table q = None) \<and> page_table p' = Some parsed' \<and>
         t'' = map PStr hs # map (\<lambda>row. map PStr (fit_row (length hs) row)) (tl parsed')"
      using h(1,2,3) by blast
  qed
  have f: "(length row < length hs \<longrightarrow>
        fit_row (length hs) row = row @ replicate (length hs - length row) [])
   \<and> (length row \<ge> length hs \<longrightarrow> fit_row (length hs) row = take (length hs) row)"
    by (simp add: fit_row_def)
  show ?thesis using a b c d e f by blast
qed

theorem extracted_rows_width_witness:
  "extract_table_with_headers True
      (\<lambda>k t h. Json (PDict [(''rows'',
          PList [PDict [(''Company'', PStr ''Acme''), (''Other'', PInt 1)],
                 PDict [(''Name'', PStr ''Ann'')]])]))
      (Response [PageObject (Str ''Acme, Ann'') Absent]) [''Name'', ''Company''] (Some ''key'') =
     Inr (Some [[PStr ''Name'', PStr ''Company''],
                [PStr '''', PStr ''Acme''],
                [PStr ''Ann'', PStr '''']])
   \<and> extract_table_with_headers True (\<lambda>k t h. NotJson)
      (Response [PageObject (Str ''| a | b | c |\<newline>|---|---|---|\<newline>| 1 |\<newline>| 2 | 3 | 4 | 5 |'') Absent])
      [''Name'', ''Company'', ''Title''] (Some ''key'') =
     Inr (Some [[PStr ''Name'', PStr ''Company'', PStr ''Title''],
                [PStr ''1'', PStr '''', PStr ''''],
                [PStr ''2'', PStr ''3'', PStr ''4'']])"
proof -
  let ?chat = "\<lambda>k t h. Json (PDict [(''rows'',
          PList [PDict [(''Company'', PStr ''Acme''), (''Other'', PInt 1)],
                 PDict [(''Name'', PStr ''Ann'')]])])"
  let ?ds = "[[(''Company'', PStr ''Acme''), (''Other'', PInt 1)], [(''Name'', PStr ''Ann'')]]"
  have c1: "collect_text [PageObject (Str ''Acme, Ann'') Absent] [] = Inr ''Acme, Ann\<newline>''"
    by code_simp
  have s1: "strip ''Acme, Ann\<newline>'' \<noteq> []"
    by code_simp
  have h1: "[PageObject (Str ''Acme, Ann'') Absent] \<noteq> [] \<and>
      collect_text [PageObject (Str ''Acme, Ann'') Absent] [] = Inr ''Acme, Ann\<newline>'' \<and>
      strip ''Acme, Ann\<newline>'' \<noteq> [] \<and> ''key'' \<noteq> [] \<and>
      ?chat ''key'' (strip ''Acme, Ann\<newline>'') [''Name'', ''Company''] =
        Json (PDict [(''rows'', PList (map PDict ?ds))]) \<and>
      map_of [(''rows'', PList (map PDict ?ds))] ''rows'' = Some (PList (map PDict ?ds)) \<and>
      ?ds \<noteq> []"
    using c1 s1 by simp
  have a: "extract_table_with_headers True ?chat
      (Response [PageObject (Str ''Acme, Ann'') Absent]) [''Name'', ''Company''] (Some ''key'') =
     Inr (Some (map PStr [''Name'', ''Company''] #
       map (\<lambda>row_obj. map (\<lambda>h. case map_of row_obj h of None \<Rightarrow> PStr [] | Some v \<Rightarrow> v)
              [''Name'', ''Company'']) ?ds))"
    using extracted_rows_width[where pages = "[PageObject (Str ''Acme, Ann'') Absent]"
        and raw_text = "''Acme, Ann\<newline>''" and k = "''key''" and chat = ?chat
        and hs = "[''Name'', ''Company'']" and d = "[(''rows'', PList (map PDict ?ds))]"
        and ds = ?ds, THEN conjunct2, THEN conjunct1, THEN mp, OF h1] .
  have a': "extract_table_with_headers True ?chat
      (Response [PageObject (Str ''Acme, Ann'') Absent]) [''Name'', ''Company''] (Some ''key'') =
     Inr (Some [[PStr ''Name'', PStr ''Company''],
                [PStr '''', PStr ''Acme''],
                [PStr ''Ann'', PStr '''']])"
    unfolding a by simp
  let ?md = "''| a | b | c |\<newline>|---|---|---|\<newline>| 1 |\<newline>| 2 | 3 | 4 | 5 |''"
  let ?parsed = "[[''a'', ''b'', ''c''], [''1''], [''2'', ''3'', ''4'', ''5'']]"
  have c2: "collect_text [PageObject (Str ?md) Absent] [] =
      Inr ''| a | b | c |\<newline>|---|---|---|\<newline>| 1 |\<newline>| 2 | 3 | 4 | 5 |\<newline>''"
    by code_simp
  have t2: "structured_tier True (\<lambda>k t h. NotJson)
      ''| a | b | c |\<newline>|---|---|---|\<newline>| 1 |\<newline>| 2 | 3 | 4 | 5 |\<newline>''
      [''Name'', ''Company'', ''Title''] (Some ''key'') = Inr None"
    by code_simp
  have p2: "page_table (PageObject (Str ?md) Absent) = Some ?parsed"
    by code_simp
  have h2: "collect_text [PageObject (Str ?md) Absent] [] =
      Inr ''| a | b | c |\<newline>|---|---|---|\<newline>| 1 |\<newline>| 2 | 3 | 4 | 5 |\<newline>'' \<and>
      structured_tier True (\<lambda>k t h. NotJson)
        ''| a | b | c |\<newline>|---|---|---|\<newline>| 1 |\<newline>| 2 | 3 | 4 | 5 |\<newline>''
        [''Name'', ''Company'', ''Title''] (Some ''key'') = Inr None \<and>
      [PageObject (Str ?md) Absent] = [] @ PageObject (Str ?md) Absent # [] \<and>
      (\<forall>q\<in>set []. page_table q = None) \<and>
      page_table (PageObject (Str ?md) Absent) = Some ?parsed"
    using c2 t2 p2 by simp
  have b: "extract_table_with_headers True (\<lambda>k t h. NotJson)
      (Response [PageObject (Str ?md) Absent]) [''Name'', ''Company'', ''Title''] (Some ''key'') =
     Inr (Some (map PStr [''Name'', ''Company'', ''Title''] #
       map (\<lambda>row. map PStr (fit_row (length [''Name'', ''Company'', ''Title'']) row))
         (tl ?parsed)))"
    using extracted_rows_width[where pages = "[PageObject (Str ?md) Absent]"
        and raw_text = "''| a | b | c |\<newline>|---|---|---|\<newline>| 1 |\<newline>| 2 | 3 | 4 | 5 |\<newline>''"
        and sdk = True and chat = "\<lambda>k t h. NotJson" and key = "Some ''key''"
        and hs = "[''Name'', ''Company'', ''Title'']" and pre = "[]"
        and p = "PageObject (Str ?md) Absent" and rest = "[]" and parsed = ?parsed,
        THEN conjunct2, THEN conjunct2, THEN conjunct2, THEN conjunct1, THEN mp, OF h2] .
  have b': "extract_table_with_headers True (\<lambda>k t h. NotJson)
      (Response [PageObject (Str ?md) Absent]) [''Name'', ''Company'', ''Title''] (Some ''key'') =
     Inr (Some [[PStr ''Name'', PStr ''Company'', PStr ''Title''],
                [PStr ''1'', PStr '''', PStr ''''],
                [PStr ''2'', PStr ''3'', PStr ''4'']])"
    unfolding b by (simp add: fit_row_def)
  show ?thesis using a' b' by blast
qed

section \<open>The raw text\<close>

lemma isspace_newline: "isspace newline"
  by (simp add: isspace_def newline_def)

lemma page_text_object:
  "object_page p \<Longrightarrow>
   page_text p = Inr (case rendering p of None \<Rightarrow> [] | Some r \<Rightarrow> r @ [newline])"
  by (cases p rule: page_text.cases) auto

lemma collect_text_objects:
  "\<forall>p\<in>set pages. object_page p \<Longrightarrow>
   collect_text pages acc =
     Inr (acc @ concat (map (\<lambda>r. r @ [newline]) (List.map_filter rendering pages)))"
proof (induction pages arbitrary: acc)
  case Nil
  then show ?case by (simp add: List.map_filter_simps)
next
  case (Cons p pages)
  then show ?case
    by (cases "rendering p") (simp_all add: page_text_object List.map_filter_simps)
qed

lemma concat_lines: "rs \<noteq> [] \<Longrightarrow> concat (map (\<lambda>r. r @ [newline]) rs) = join_lines rs @ [newline]"
  by (induction rs rule: join_lines.induct) simp_all

lemma strip_concat_lines: "strip (concat (map (\<lambda>r. r @ [newline]) rs)) = strip (join_lines rs)"
  by (cases "rs = []") (simp_all add: concat_lines strip_space_snoc isspace_newline)

lemma structured_tier_cong:
  assumes "\<forall>k. chat' k (strip raw_text) hs = chat k (strip raw_text) hs"
  shows "structured_tier sdk chat' raw_text hs key = structured_tier sdk chat raw_text hs key"
  using assms
  by (simp add: structured_tier_def format_ocr_with_structured_output_def split: option.splits)

text \<open>
  Claim C7, as stated, fails. The blob that reaches the structured tier is trimmed: a page
  with markdown \<open>" a"\<close> gives \<open>"a"\<close>. A page given as a dict with a markdown and a text
  entry contributes both.
\<close>

theorem raw_text_counterexample:
  "collect_text [PageObject (Str '' a'') Absent] [] = Inr '' a\<newline>''
   \<and> strip '' a\<newline>'' = ''a''
   \<and> spec_raw_text [PageObject (Str '' a'') Absent] = '' a''
   \<and> collect_text [PageDict (Str ''m'') (Str ''t'')] [] = Inr ''m\<newline>t\<newline>''
   \<and> strip ''m\<newline>t\<newline>'' = ''m\<newline>t''
   \<and> spec_raw_text [PageDict (Str ''m'') (Str ''t'')] = ''m''"
  by code_simp

text \<open>
  Claim C7, amended. For pages given as objects whose attributes hold strings, the text
  that reaches the structured tier is the trimmed concatenation, in page order and
  separated by newlines, of each page's markdown when it has one and else of its plain
  text: collecting the text does not fail, the collected text trims to that
  concatenation, trimmed, and the result depends on the chat service only through its
  answer to that text. A page with a markdown and a plain text contributes the markdown
  only. Without pages the result is absent.
\<close>

theorem raw_text_of_object_pages:
  assumes "\<forall>p\<in>set pages. object_page p"
  shows "(\<exists>raw_text. collect_text pages [] = Inr raw_text \<and>
          strip raw_text = strip (spec_raw_text pages))
     \<and> ((\<forall>k. chat' k (strip (spec_raw_text pages)) hs = chat k (strip (spec_raw_text pages)) hs) \<longrightarrow>
          extract_table_with_headers sdk chat' (Response pages) hs key =
          extract_table_with_headers sdk chat (Response pages) hs key)
     \<and> collect_text [PageObject (Str markdown) (Str plain)] [] = Inr (markdown @ [newline])
     \<and> extract_table_with_headers sdk chat (Response []) hs key = Inr None
     \<and> extract_table_with_headers sdk chat NoPages hs key = Inr None"
proof -
  define raw_text where
    "raw_text = concat (map (\<lambda>r. r @ [newline]) (List.map_filter rendering pages))"
  have col: "collect_text pages [] = Inr raw_text"
    using collect_text_objects[OF assms, of "[]"] by (simp add: raw_text_def)
  have str: "strip raw_text = strip (spec_raw_text pages)"
    by (simp add: raw_text_def spec_raw_text_def strip_concat_lines)
  have a: "\<exists>raw_text. collect_text pages [] = Inr raw_text \<and>
          strip raw_text = strip (spec_raw_text pages)"
    using col str by blast
  have b: "(\<forall>k. chat' k (strip (spec_raw_text pages)) hs = chat k (strip (spec_raw_text pages)) hs) \<longrightarrow>
          extract_table_with_headers sdk chat' (Response pages) hs key =
          extract_table_with_headers sdk chat (Response pages) hs key"
  proof
    assume "\<forall>k. chat' k (strip (spec_raw_text pages)) hs = chat k (strip (spec_raw_text pages)) hs"
    then have "\<forall>k. chat' k (strip raw_text) hs = chat k (strip raw_text) hs"
      by (simp add: str)
    then have "structured_tier sdk chat' raw_text hs key = structured_tier sdk chat raw_text hs key"
      by (rule structured_tier_cong)
    then show "extract_table_with_headers sdk chat' (Response pages) hs key =
          extract_table_with_headers sdk chat (Response pages) hs key"
      by (simp add: extract_table_with_headers_def col)
  qed
  have c: "collect_text [PageObject (Str markdown) (Str plain)] [] = Inr (markdown @ [newline])"
    by simp
  have d: "extract_table_with_headers sdk chat (Response []) hs key = Inr None
     \<and> extract_table_with_headers sdk chat NoPages hs key = Inr None"
    by (simp add: extract_table_with_headers_def)
  show ?thesis using a b c d by blast
qed

theorem raw_text_of_object_pages_witness:
  "list_all object_page [PageObject (Str '' a'') (Str ''x''), PageObject Absent Absent,
      PageObject Absent (Str ''b '')]
   \<and> collect_text [PageObject (Str '' a'') (Str ''x''), PageObject Absent Absent,
      PageObject Absent (Str ''b '')] [] = Inr '' a\<newline>b \<newline>''
   \<and> spec_raw_text [PageObject (Str '' a'') (Str ''x''), PageObject Absent Absent,
      PageObject Absent (Str ''b '')] = '' a\<newline>b ''
   \<and> strip '' a\<newline>b \<newline>'' = strip '' a\<newline>b ''
   \<and> strip '' a\<newline>b '' = ''a\<newline>b''"
proof -
  have a: "\<forall>p\<in>set [PageObject (Str '' a'') (Str ''x''), PageObject Absent Absent,
      PageObject Absent (Str ''b '')]. object_page p"
    by simp
  have b: "collect_text [PageObject (Str '' a'') (Str ''x''), PageObject Absent Absent,
      PageObject Absent (Str ''b '')] [] = Inr '' a\<newline>b \<newline>''"
    by code_simp
  have c: "spec_raw_text [PageObject (Str '' a'') (Str ''x''), PageObject Absent Absent,
      PageObject Absent (Str ''b '')] = '' a\<newline>b ''"
    by code_simp
  have d: "strip '' a\<newline>b '' = ''a\<newline>b''"
    by code_simp
  have e: "\<exists>raw_text. collect_text [PageObject (Str '' a'') (Str ''x''), PageObject Absent Absent,
      PageObject Absent (Str ''b '')] [] = Inr raw_text \<and>
      strip raw_text = strip (spec_raw_text [PageObject (Str '' a'') (Str ''x''),
        PageObject Absent Absent, PageObject Absent (Str ''b '')])"
    using raw_text_of_object_pages[OF a] by (rule conjunct1)
  have f: "strip '' a\<newline>b \<newline>'' = strip '' a\<newline>b ''"
    using e unfolding b c by simp
  have g: "list_all object_page [PageObject (Str '' a'') (Str ''x''), PageObject Absent Absent,
      PageObject Absent (Str ''b '')]"
    by simp
  show ?thesis
    using g b c d f by blast
qed

section \<open>The capture run\<close>

text \<open>A cycle leaves the file as it is or appends rows of the header's width.\<close>

lemma cycle_body_appends:
  assumes "cycle_body cfg io f = Inr f'"
  shows "f' = f \<or>
     (\<exists>rows. (\<forall>row\<in>set rows. length row = length (cfg_target_headers cfg)) \<and>
        f' = append_rows (cfg_str_of cfg) rows f)"
proof -
  from assms obtain u resp where
    resp: "io_screenshot io = Inr u"
      "perform_ocr_on_image (cfg_sdk_available cfg) (io_ocr_call io) = Inr resp"
    by (auto simp: cycle_body_def split: sum.splits)
  show ?thesis
  proof (cases "extract_table_with_headers (cfg_sdk_available cfg) (io_chat io) resp
                  (cfg_target_headers cfg) (cfg_api_key cfg)")
    case (Inl e)
    then show ?thesis using assms resp by (simp add: cycle_body_def)
  next
    case (Inr r)
    show ?thesis
    proof (cases r)
      case None
      then show ?thesis using assms resp Inr by (simp add: cycle_body_def)
    next
      case (Some extracted)
      have "\<forall>row\<in>set (tl extracted). length row = length (cfg_target_headers cfg)"
        using extract_widths Inr Some by blast
      then show ?thesis
        using assms resp Inr Some by (auto simp: cycle_body_def split: if_splits)
    qed
  qed
qed

lemma capture_cycle_appends:
  assumes "f = Some (header # data)"
  shows "\<exists>new. capture_cycle cfg io f = Some (header # data @ new) \<and>
     (\<forall>row\<in>set new. length row = length (cfg_target_headers cfg))"
proof (cases "cycle_body cfg io f")
  case (Inl e)
  then have "capture_cycle cfg io f = Some (header # data @ [])"
    using assms by (simp add: capture_cycle_def)
  then show ?thesis by fastforce
next
  case (Inr f')
  then have cc: "capture_cycle cfg io f = f'"
    by (simp add: capture_cycle_def)
  from cycle_body_appends[OF Inr] show ?thesis
  proof
    assume "f' = f"
    then have "capture_cycle cfg io f = Some (header # data @ [])"
      using cc assms by simp
    then show ?thesis by fastforce
  next
    assume "\<exists>rows. (\<forall>row\<in>set rows. length row = length (cfg_target_headers cfg)) \<and>
        f' = append_rows (cfg_str_of cfg) rows f"
    then obtain rows where rows: "\<forall>row\<in>set rows. length row = length (cfg_target_headers cfg)"
      "f' = append_rows (cfg_str_of cfg) rows f"
      by blast
    let ?new = "map (map (csv_field (cfg_str_of cfg))) rows"
    have "capture_cycle cfg io f = Some (header # data @ ?new)"
      using cc rows(2) assms by (simp add: append_rows_def)
    moreover have "\<forall>row\<in>set ?new. length row = length (cfg_target_headers cfg)"
      using rows(1) by simp
    ultimately show ?thesis by blast
  qed
qed

lemma deduplicate_keeps_header:
  "\<exists>kept. fst (deduplicate_csv (Some (header # data))) = Some (header # kept) \<and>
     set kept = set data"
  by (simp add: deduplicate_csv_def Let_def unique_loop_set)

lemma reachable_header:
  assumes "reachable cfg f"
  shows "\<exists>data. f = Some (cfg_target_headers cfg # data) \<and>
     (\<forall>row\<in>set data. length row = length (cfg_target_headers cfg))"
  using assms
proof (induction rule: reachable.induct)
  case (initialised f0)
  then show ?case by (simp add: save_table_to_csv_def)
next
  case (cycle f io)
  then obtain data where data: "f = Some (cfg_target_headers cfg # data)"
    "\<forall>row\<in>set data. length row = length (cfg_target_headers cfg)"
    by blast
  obtain new where new: "capture_cycle cfg io f = Some (cfg_target_headers cfg # data @ new)"
    "\<forall>row\<in>set new. length row = length (cfg_target_headers cfg)"
    using capture_cycle_appends[OF data(1)] by blast
  have "\<forall>row\<in>set (data @ new). length row = length (cfg_target_headers cfg)"
    using data(2) new(2) by auto
  then show ?case using new(1) by blast
next
  case (deduplicated f)
  then obtain data where data: "f = Some (cfg_target_headers cfg # data)"
    "\<forall>row\<in>set data. length row = length (cfg_target_headers cfg)"
    by blast
  obtain kept where kept:
    "fst (deduplicate_csv f) = Some (cfg_target_headers cfg # kept)" "set kept = set data"
    using deduplicate_keeps_header[of "cfg_target_headers cfg" data] data(1) by blast
  then show ?case using data(2) by auto
qed

text \<open>Every state of a run is one of the reachable states.\<close>

lemma run_cycles_reachable: "reachable cfg f \<Longrightarrow> reachable cfg (run_cycles cfg ios f)"
  by (induction ios arbitrary: f) (simp_all add: reachable.cycle)

lemma run_cycles_append:
  "run_cycles cfg (xs @ ys) f = run_cycles cfg ys (run_cycles cfg xs f)"
  by (induction xs arbitrary: f) simp_all

lemma screen_capture_mode_reachable: "reachable cfg (screen_capture_mode cfg ios proceed f0)"
proof -
  have "reachable cfg (run_cycles cfg ios (save_table_to_csv [cfg_target_headers cfg] f0))"
    by (rule run_cycles_reachable) (rule reachable.initialised)
  then show ?thesis
    by (simp add: screen_capture_mode_def Let_def reachable.deduplicated)
qed

text \<open>
  Claim C8. In every state that a run reaches after the header row is written, the first
  record of the CSV file is the declared header row and every data row has its width. A
  capture cycle keeps the header row and the rows already there and only appends rows
  after them; the deduplication pass writes the same header row as the first record. The
  states of \<open>screen_capture_mode\<close> are among these.
\<close>

theorem header_row_invariant:
  assumes "reachable cfg f"
  shows "(\<exists>data. f = Some (cfg_target_headers cfg # data) \<and>
          (\<forall>row\<in>set data. length row = length (cfg_target_headers cfg)) \<and>
          (\<exists>new. capture_cycle cfg io f = Some (cfg_target_headers cfg # data @ new)) \<and>
          (\<exists>kept. fst (deduplicate_csv f) = Some (cfg_target_headers cfg # kept)))
     \<and> reachable cfg (run_cycles cfg ios (save_table_to_csv [cfg_target_headers cfg] f0))
     \<and> reachable cfg (screen_capture_mode cfg ios proceed f0)"
proof -
  obtain data where data: "f = Some (cfg_target_headers cfg # data)"
    "\<forall>row\<in>set data. length row = length (cfg_target_headers cfg)"
    using reachable_header[OF assms] by blast
  have a: "\<exists>new. capture_cycle cfg io f = Some (cfg_target_headers cfg # data @ new)"
    using capture_cycle_appends[OF data(1)] by blast
  have b: "\<exists>kept. fst (deduplicate_csv f) = Some (cfg_target_headers cfg # kept)"
    using deduplicate_keeps_header[of "cfg_target_headers cfg" data] data(1) by blast
  have c: "reachable cfg (run_cycles cfg ios (save_table_to_csv [cfg_target_headers cfg] f0))"
    by (rule run_cycles_reachable) (rule reachable.initialised)
  have d: "reachable cfg (screen_capture_mode cfg ios proceed f0)"
    by (rule screen_capture_mode_reachable)
  show ?thesis using data a b c d by blast
qed

theorem header_row_invariant_witness:
  "screen_capture_mode
      \<lparr>cfg_sdk_available = True, cfg_api_key = Some ''key'',
        cfg_target_headers = [''Name'', ''Company''], cfg_debug_mode = False,
        cfg_str_of = (\<lambda>v. [])\<rparr>
      [\<lparr>io_screenshot = Inr (), io_ocr_call = Inr (Response [PageObject (Str ''John at Acme'') Absent]),
         io_chat = (\<lambda>k t h. Json (PDict [(''rows'',
           PList [PDict [(''Name'', PStr ''John''), (''Company'', PStr ''Acme'')]])]))\<rparr>,
       \<lparr>io_screenshot = Inr (), io_ocr_call = Inr (Response [PageObject (Str ''John at Acme'') Absent]),
         io_chat = (\<lambda>k t h. Json (PDict [(''rows'',
           PList [PDict [(''Name'', PStr ''John''), (''Company'', PStr ''Acme'')]])]))\<rparr>]
      True None
     = Some [[''Name'', ''Company''], [''John'', ''Acme'']]
   \<and> (\<exists>data. Some [[''Name'', ''Company''], [''John'', ''Acme'']] =
        Some ([''Name'', ''Company''] # data))"
proof -
  let ?cfg = "\<lparr>cfg_sdk_available = True, cfg_api_key = Some ''key'',
        cfg_target_headers = [''Name'', ''Company''], cfg_debug_mode = False,
        cfg_str_of = (\<lambda>v. [])\<rparr>"
  let ?io = "\<lparr>io_screenshot = Inr (),
         io_ocr_call = Inr (Response [PageObject (Str ''John at Acme'') Absent]),
         io_chat = (\<lambda>k t h. Json (PDict [(''rows'',
           PList [PDict [(''Name'', PStr ''John''), (''Company'', PStr ''Acme'')]])]))\<rparr>"
  have x: "extract_table_with_headers True (\<lambda>k t h. Json (PDict [(''rows'',
           PList [PDict [(''Name'', PStr ''John''), (''Company'', PStr ''Acme'')]])]))
        (Response [PageObject (Str ''John at Acme'') Absent]) [''Name'', ''Company''] (Some ''key'')
      = Inr (Some [[PStr ''Name'', PStr ''Company''], [PStr ''John'', PStr ''Acme'']])"
    by code_simp
  have c: "capture_cycle ?cfg ?io (Some rows) = Some (rows @ [[''John'', ''Acme'']])" for rows
    using x by (simp add: capture_cycle_def cycle_body_def perform_ocr_on_image_def
        append_rows_def csv_field_def)
  have m: "screen_capture_mode ?cfg [?io, ?io] True None =
      Some [[''Name'', ''Company''], [''John'', ''Acme'']]"
    by (simp add: screen_capture_mode_def save_table_to_csv_def c deduplicate_csv_def)
  have r: "reachable ?cfg (screen_capture_mode ?cfg [?io, ?io] True None)"
    by (rule screen_capture_mode_reachable)
  have "\<exists>data. screen_capture_mode ?cfg [?io, ?io] True None =
      Some (cfg_target_headers ?cfg # data)"
    using header_row_invariant[OF r, THEN conjunct1] by blast
  then have "\<exists>data. Some [[''Name'', ''Company''], [''John'', ''Acme'']] =
        Some ([''Name'', ''Company''] # data)"
    unfolding m by simp
  then show ?thesis using m by blast
qed

text \<open>
  Claim C9. When the capture, the OCR call or the extraction of a cycle raises an
  exception, the body of the cycle ends with that exception or an earlier one, the cycle
  leaves the CSV file as it was, and the run goes on with the cycles after it: it ends as
  the run without the failed cycle does.
\<close>

theorem failed_cycle_keeps_file:
  assumes "io_screenshot io = Inl e
     \<or> perform_ocr_on_image (cfg_sdk_available cfg) (io_ocr_call io) = Inl e
     \<or> (\<exists>resp. perform_ocr_on_image (cfg_sdk_available cfg) (io_ocr_call io) = Inr resp \<and>
          extract_table_with_headers (cfg_sdk_available cfg) (io_chat io) resp
            (cfg_target_headers cfg) (cfg_api_key cfg) = Inl e)"
  shows "(\<exists>e'. cycle_body cfg io f = Inl e')
     \<and> capture_cycle cfg io f = f
     \<and> run_cycles cfg (io # later) f = run_cycles cfg later f
     \<and> run_cycles cfg (earlier @ io # later) f0 = run_cycles cfg (earlier @ later) f0"
proof -
  have body: "\<exists>e'. cycle_body cfg io g = Inl e'" for g
    using assms by (auto simp: cycle_body_def split: sum.splits)
  have same: "capture_cycle cfg io g = g" for g
  proof -
    obtain e' where "cycle_body cfg io g = Inl e'"
      using body by blast
    then show ?thesis by (simp add: capture_cycle_def)
  qed
  have "run_cycles cfg (earlier @ io # later) f0 = run_cycles cfg (earlier @ later) f0"
    by (simp add: run_cycles_append same)
  then show ?thesis using body same by simp
qed

theorem failed_cycle_keeps_file_witness:
  "extract_table_with_headers True (\<lambda>k t h. NotJson) (Response [PageObject Null Absent])
      [''Name''] (Some ''key'') = Inl TypeError
   \<and> capture_cycle
        \<lparr>cfg_sdk_available = True, cfg_api_key = Some ''key'', cfg_target_headers = [''Name''],
          cfg_debug_mode = False, cfg_str_of = (\<lambda>v. [])\<rparr>
        \<lparr>io_screenshot = Inr (), io_ocr_call = Inr (Response [PageObject Null Absent]),
          io_chat = (\<lambda>k t h. NotJson)\<rparr>
        (Some [[''Name''], [''John'']]) = Some [[''Name''], [''John'']]
   \<and> run_cycles
        \<lparr>cfg_sdk_available = True, cfg_api_key = Some ''key'', cfg_target_headers = [''Name''],
          cfg_debug_mode = False, cfg_str_of = (\<lambda>v. [])\<rparr>
        [\<lparr>io_screenshot = Inr (), io_ocr_call = Inr (Response [PageObject Null Absent]),
           io_chat = (\<lambda>k t h. NotJson)\<rparr>,
         \<lparr>io_screenshot = Inr (), io_ocr_call = Inr (Response [PageObject (Str ''|a|\<newline>|Ann|'') Absent]),
           io_chat = (\<lambda>k t h. NotJson)\<rparr>]
        (Some [[''Name''], [''John'']]) = Some [[''Name''], [''John''], [''Ann'']]"
proof -
  let ?cfg = "\<lparr>cfg_sdk_available = True, cfg_api_key = Some ''key'', cfg_target_headers = [''Name''],
          cfg_debug_mode = False, cfg_str_of = (\<lambda>v. [])\<rparr>"
  let ?bad = "\<lparr>io_screenshot = Inr (), io_ocr_call = Inr (Response [PageObject Null Absent]),
          io_chat = (\<lambda>k t h. NotJson)\<rparr>"
  let ?good = "\<lparr>io_screenshot = Inr (),
          io_ocr_call = Inr (Response [PageObject (Str ''|a|\<newline>|Ann|'') Absent]),
          io_chat = (\<lambda>k t h. NotJson)\<rparr>"
  have x: "extract_table_with_headers True (\<lambda>k t h. NotJson) (Response [PageObject Null Absent])
      [''Name''] (Some ''key'') = Inl TypeError"
    by code_simp
  have h: "io_screenshot ?bad = Inl TypeError
     \<or> perform_ocr_on_image (cfg_sdk_available ?cfg) (io_ocr_call ?bad) = Inl TypeError
     \<or> (\<exists>resp. perform_ocr_on_image (cfg_sdk_available ?cfg) (io_ocr_call ?bad) = Inr resp \<and>
          extract_table_with_headers (cfg_sdk_available ?cfg) (io_chat ?bad) resp
            (cfg_target_headers ?cfg) (cfg_api_key ?cfg) = Inl TypeError)"
    using x by (simp add: perform_ocr_on_image_def)
  note th = failed_cycle_keeps_file[OF h, of "Some [[''Name''], [''John'']]" "[?good]"]
  have a: "capture_cycle ?cfg ?bad (Some [[''Name''], [''John'']]) = Some [[''Name''], [''John'']]"
    using th[THEN conjunct2, THEN conjunct1] .
  have g: "extract_table_with_headers True (\<lambda>k t h. NotJson)
      (Response [PageObject (Str ''|a|\<newline>|Ann|'') Absent]) [''Name''] (Some ''key'')
      = Inr (Some [[PStr ''Name''], [PStr ''Ann'']])"
    by code_simp
  have r: "run_cycles ?cfg [?good] (Some [[''Name''], [''John'']]) =
      Some [[''Name''], [''John''], [''Ann'']]"
    using g by (simp add: capture_cycle_def cycle_body_def perform_ocr_on_image_def
        append_rows_def csv_field_def)
  have b: "run_cycles ?cfg [?bad, ?good] (Some [[''Name''], [''John'']]) =
      Some [[''Name''], [''John''], [''Ann'']]"
    using th[THEN conjunct2, THEN conjunct2, THEN conjunct1] unfolding r .
  show ?thesis using x a b by blast
qed

section \<open>Reading what the writer wrote\<close>

lemma set_state_simps [simp]:
  "rd_state (set_state s r) = s"
  "rd_fields (set_state s r) = rd_fields r"
  "rd_field (set_state s r) = rd_field r"
  by (simp_all add: set_state_def)

lemma parse_save_field_simps [simp]:
  "rd_state (parse_save_field r) = rd_state r"
  "rd_fields (parse_save_field r) = rd_fields r @ [rd_field r]"
  "rd_field (parse_save_field r) = []"
  by (simp_all add: parse_save_field_def)

lemma special_chars_distinct:
  "dquote \<noteq> newline" "dquote \<noteq> carriage_return" "comma \<noteq> newline"
  "comma \<noteq> carriage_return" "comma \<noteq> dquote" "carriage_return \<noteq> newline"
  "newline \<noteq> dquote" "carriage_return \<noteq> dquote" "newline \<noteq> comma"
  "carriage_return \<noteq> comma" "dquote \<noteq> comma" "newline \<noteq> carriage_return"
  by (simp_all add: dquote_def newline_def carriage_return_def comma_def)

lemma line_ends_inside:
  "c \<noteq> newline \<Longrightarrow> c \<noteq> carriage_return \<Longrightarrow> cs \<noteq> [] \<Longrightarrow> \<not> line_ends c cs"
  by (simp add: line_ends_def)

text \<open>Inside quotes the end of a line changes nothing.\<close>

lemma read_chars_in_quotes:
  assumes "parse_process_char r (Some c) = Some r1" and "rd_state r1 = IN_QUOTED_FIELD"
  shows "read_chars r rows (c # cs) = read_chars r1 rows cs"
proof -
  have "parse_process_char r1 None = Some r1"
    using assms(2) by (simp add: parse_process_char_def)
  then show ?thesis
    using assms by simp
qed

lemma read_chars_inside:
  assumes "parse_process_char r (Some c) = Some r1" and "\<not> line_ends c cs"
  shows "read_chars r rows (c # cs) = read_chars r1 rows cs"
  using assms by simp

lemma read_plain:
  assumes "rd_state r = IN_FIELD"
    and "\<not> needs_quotes s"
    and "length (rd_field r) + length s \<le> field_limit"
    and "tail \<noteq> []"
  shows "read_chars r rows (s @ tail) = read_chars (r\<lparr>rd_field := rd_field r @ s\<rparr>) rows tail"
  using assms
proof (induction s arbitrary: r)
  case Nil
  then show ?case by simp
next
  case (Cons c s)
  let ?r1 = "r\<lparr>rd_field := rd_field r @ [c]\<rparr>"
  have c: "c \<noteq> comma" "c \<noteq> dquote" "c \<noteq> carriage_return" "c \<noteq> newline"
    using Cons.prems(2) by (auto simp: needs_quotes_def)
  have step: "parse_process_char r (Some c) = Some ?r1"
    using Cons.prems(1,3) c by (simp add: parse_process_char_def parse_add_char_def)
  have "\<not> line_ends c (s @ tail)"
    using c Cons.prems(4) by (simp add: line_ends_inside)
  then have "read_chars r rows ((c # s) @ tail) = read_chars ?r1 rows (s @ tail)"
    using step by simp
  also have "\<dots> = read_chars (?r1\<lparr>rd_field := rd_field ?r1 @ s\<rparr>) rows tail"
    using Cons.prems by (intro Cons.IH) (simp_all add: needs_quotes_def)
  finally show ?case by simp
qed

lemma read_quoted:
  assumes "rd_state r = IN_QUOTED_FIELD"
    and "length (rd_field r) + length s \<le> field_limit"
    and "tail \<noteq> []"
  shows "read_chars r rows (double_quotes s @ dquote # tail) =
     read_chars (r\<lparr>rd_state := QUOTE_IN_QUOTED_FIELD, rd_field := rd_field r @ s\<rparr>) rows tail"
  using assms
proof (induction s arbitrary: r)
  case Nil
  have "parse_process_char r (Some dquote) = Some (set_state QUOTE_IN_QUOTED_FIELD r)"
    using Nil.prems(1) by (simp add: parse_process_char_def)
  moreover have "\<not> line_ends dquote tail"
    using Nil.prems(3) by (simp add: line_ends_inside special_chars_distinct)
  ultimately show ?case
    by (simp add: double_quotes_def set_state_def)
next
  case (Cons c s)
  let ?r1 = "r\<lparr>rd_field := rd_field r @ [c]\<rparr>"
  let ?rest = "double_quotes s @ dquote # tail"
  have len: "length (rd_field r) < field_limit"
    using Cons.prems(2) by simp
  have ih: "read_chars ?r1 rows ?rest =
      read_chars (?r1\<lparr>rd_state := QUOTE_IN_QUOTED_FIELD, rd_field := rd_field ?r1 @ s\<rparr>) rows tail"
    using Cons.prems by (intro Cons.IH) simp_all
  have "read_chars r rows (double_quotes (c # s) @ dquote # tail) = read_chars ?r1 rows ?rest"
  proof (cases "c = dquote")
    case True
    let ?q = "set_state QUOTE_IN_QUOTED_FIELD r"
    have s1: "parse_process_char r (Some dquote) = Some ?q"
      using Cons.prems(1) by (simp add: parse_process_char_def)
    have s2: "parse_process_char ?q (Some dquote) = Some ?r1"
      using Cons.prems(1) len True
      by (simp add: parse_process_char_def parse_add_char_def set_state_def)
    have "read_chars r rows (dquote # dquote # ?rest) = read_chars ?q rows (dquote # ?rest)"
      using s1 by (intro read_chars_inside) (simp_all add: line_ends_inside special_chars_distinct)
    also have "\<dots> = read_chars ?r1 rows ?rest"
      using s2 by (intro read_chars_inside) (simp_all add: line_ends_inside special_chars_distinct)
    finally show ?thesis using True by (simp add: double_quotes_def)
  next
    case False
    have "parse_process_char r (Some c) = Some ?r1"
      using Cons.prems(1) len False by (simp add: parse_process_char_def parse_add_char_def)
    moreover have "rd_state ?r1 = IN_QUOTED_FIELD"
      using Cons.prems(1) by simp
    ultimately have "read_chars r rows (c # ?rest) = read_chars ?r1 rows ?rest"
      by (rule read_chars_in_quotes)
    then show ?thesis using False by (simp add: double_quotes_def)
  qed
  then show ?case using ih by simp
qed

text \<open>One written field, read from the start of a field.\<close>

lemma read_field:
  assumes "rd_state r = START_FIELD" and "rd_field r = []"
    and "length f \<le> field_limit" and "tail \<noteq> []"
  shows "read_chars r rows (write_field f @ tail) =
     read_chars
       (r\<lparr>rd_state := (if needs_quotes f then QUOTE_IN_QUOTED_FIELD
                        else if f = [] then START_FIELD else IN_FIELD),
          rd_field := f\<rparr>) rows tail"
proof (cases "needs_quotes f")
  case True
  let ?q = "set_state IN_QUOTED_FIELD r"
  have "parse_process_char r (Some dquote) = Some ?q"
    using assms(1) by (simp add: parse_process_char_def start_field_def special_chars_distinct)
  then have "read_chars r rows (dquote # double_quotes f @ dquote # tail) =
      read_chars ?q rows (double_quotes f @ dquote # tail)"
    by (intro read_chars_inside) (simp_all add: line_ends_inside special_chars_distinct)
  also have "\<dots> = read_chars (?q\<lparr>rd_state := QUOTE_IN_QUOTED_FIELD, rd_field := rd_field ?q @ f\<rparr>)
      rows tail"
    using assms by (intro read_quoted) simp_all
  finally show ?thesis
    using True assms(2) by (simp add: write_field_def set_state_def)
next
  case False
  show ?thesis
  proof (cases f)
    case Nil
    have "r\<lparr>rd_state := START_FIELD, rd_field := []\<rparr> = r"
      using assms(1,2) by (cases r) simp
    then show ?thesis using False Nil by (simp add: write_field_def)
  next
    case (Cons c s)
    let ?r1 = "r\<lparr>rd_state := IN_FIELD, rd_field := [c]\<rparr>"
    have c: "c \<noteq> comma" "c \<noteq> dquote" "c \<noteq> carriage_return" "c \<noteq> newline"
      and s: "\<not> needs_quotes s"
      using False Cons by (auto simp: needs_quotes_def)
    have "0 < field_limit" by (simp add: field_limit_def)
    then have "parse_process_char r (Some c) = Some ?r1"
      using assms(1,2) c
      by (simp add: parse_process_char_def start_field_def parse_add_char_def set_state_def)
    then have "read_chars r rows (c # s @ tail) = read_chars ?r1 rows (s @ tail)"
      using c assms(4) by (intro read_chars_inside) (simp_all add: line_ends_inside)
    also have "\<dots> = read_chars (?r1\<lparr>rd_field := rd_field ?r1 @ s\<rparr>) rows tail"
      using s assms(3,4) Cons by (intro read_plain) simp_all
    finally show ?thesis
      using False Cons by (simp add: write_field_def)
  qed
qed

lemma read_comma:
  assumes "rd_state r = START_FIELD \<or> rd_state r = IN_FIELD \<or> rd_state r = QUOTE_IN_QUOTED_FIELD"
    and "tail \<noteq> []"
  shows "read_chars r rows (comma # tail) =
     read_chars (set_state START_FIELD (parse_save_field r)) rows tail"
proof -
  have "parse_process_char r (Some comma) = Some (set_state START_FIELD (parse_save_field r))"
    using assms(1)
    by (auto simp: parse_process_char_def start_field_def special_chars_distinct)
  then show ?thesis
    using assms(2) by (intro read_chars_inside) (simp_all add: line_ends_inside special_chars_distinct)
qed

lemma read_line_end:
  assumes "rd_state r = START_FIELD \<or> rd_state r = IN_FIELD \<or> rd_state r = QUOTE_IN_QUOTED_FIELD"
  shows "read_chars r rows (carriage_return # newline # rest) =
     read_chars parse_reset (rows @ [rd_fields r @ [rd_field r]]) rest"
proof -
  let ?e = "set_state EAT_CRNL (parse_save_field r)"
  have s1: "parse_process_char r (Some carriage_return) = Some ?e"
    using assms
    by (auto simp: parse_process_char_def start_field_def special_chars_distinct)
  have s2: "parse_process_char ?e (Some newline) = Some ?e"
    by (simp add: parse_process_char_def)
  have s3: "parse_process_char ?e None = Some (set_state START_RECORD ?e)"
    by (simp add: parse_process_char_def)
  have "read_chars r rows (carriage_return # newline # rest) = read_chars ?e rows (newline # rest)"
    using s1 by (intro read_chars_inside) (simp_all add: line_ends_def special_chars_distinct)
  also have "\<dots> = read_chars parse_reset (rows @ [rd_fields r @ [rd_field r]]) rest"
    using s2 s3 by (simp add: line_ends_def)
  finally show ?thesis .
qed

lemma read_fields:
  assumes "rd_state r = START_FIELD" and "rd_field r = []"
    and "\<forall>g\<in>set (f # fs). length g \<le> field_limit"
  shows "read_chars r rows
       (join_fields (map write_field (f # fs)) @ carriage_return # newline # rest) =
     read_chars parse_reset (rows @ [rd_fields r @ f # fs]) rest"
  using assms
proof (induction fs arbitrary: r f)
  case Nil
  let ?r1 = "r\<lparr>rd_state := (if needs_quotes f then QUOTE_IN_QUOTED_FIELD
                        else if f = [] then START_FIELD else IN_FIELD),
          rd_field := f\<rparr>"
  have "read_chars r rows (write_field f @ carriage_return # newline # rest) =
      read_chars ?r1 rows (carriage_return # newline # rest)"
    using Nil.prems by (intro read_field) simp_all
  also have "\<dots> = read_chars parse_reset (rows @ [rd_fields ?r1 @ [rd_field ?r1]]) rest"
    by (intro read_line_end) simp
  finally show ?case by simp
next
  case (Cons g gs)
  let ?r1 = "r\<lparr>rd_state := (if needs_quotes f then QUOTE_IN_QUOTED_FIELD
                        else if f = [] then START_FIELD else IN_FIELD),
          rd_field := f\<rparr>"
  let ?r2 = "set_state START_FIELD (parse_save_field ?r1)"
  let ?tail = "join_fields (map write_field (g # gs)) @ carriage_return # newline # rest"
  have "read_chars r rows (write_field f @ comma # ?tail) = read_chars ?r1 rows (comma # ?tail)"
    using Cons.prems by (intro read_field) simp_all
  also have "\<dots> = read_chars ?r2 rows ?tail"
    by (intro read_comma) simp_all
  also have "\<dots> = read_chars parse_reset (rows @ [rd_fields ?r2 @ g # gs]) rest"
    using Cons.prems by (intro Cons.IH) simp_all
  finally show ?case by simp
qed

lemma read_record_start:
  assumes "c \<noteq> newline" and "c \<noteq> carriage_return"
  shows "read_chars parse_reset rows (c # cs) =
     read_chars (set_state START_FIELD parse_reset) rows (c # cs)"
proof -
  have "parse_process_char parse_reset (Some c) =
      parse_process_char (set_state START_FIELD parse_reset) (Some c)"
    using assms
    by (simp add: parse_process_char_def parse_reset_def start_field_def set_state_def
        parse_save_field_def parse_add_char_def)
  then show ?thesis by simp
qed

lemma written_row_start:
  assumes "row \<noteq> []" and "row \<noteq> [[]]"
  shows "\<exists>c cs. join_fields (map write_field row) @ tail = c # cs \<and>
     c \<noteq> newline \<and> c \<noteq> carriage_return"
proof -
  obtain f fs where row: "row = f # fs"
    using assms(1) by (cases row) auto
  show ?thesis
  proof (cases "needs_quotes f")
    case True
    then show ?thesis
      using row by (cases fs) (simp_all add: write_field_def special_chars_distinct)
  next
    case False
    show ?thesis
    proof (cases f)
      case Nil
      then obtain g gs where "fs = g # gs"
        using assms(2) row by (cases fs) auto
      then show ?thesis
        using row Nil False by (simp add: write_field_def special_chars_distinct)
    next
      case (Cons c s)
      then have "c \<noteq> newline" "c \<noteq> carriage_return"
        using False by (auto simp: needs_quotes_def)
      then show ?thesis
        using row Cons False by (cases fs) (simp_all add: write_field_def)
    qed
  qed
qed

lemma read_row:
  assumes "\<forall>f\<in>set row. length f \<le> field_limit"
  shows "read_chars parse_reset rows (writerow row @ rest) =
     read_chars parse_reset (rows @ [row]) rest"
proof (cases "row = []")
  case True
  let ?e = "set_state EAT_CRNL parse_reset"
  have s1: "parse_process_char parse_reset (Some carriage_return) = Some ?e"
    by (simp add: parse_process_char_def parse_reset_def)
  have s2: "parse_process_char ?e (Some newline) = Some ?e"
    by (simp add: parse_process_char_def)
  have s3: "parse_process_char ?e None = Some (set_state START_RECORD ?e)"
    by (simp add: parse_process_char_def)
  have "read_chars parse_reset rows (carriage_return # newline # rest) =
      read_chars ?e rows (newline # rest)"
    using s1 by (intro read_chars_inside) (simp_all add: line_ends_def special_chars_distinct)
  also have "\<dots> = read_chars parse_reset (rows @ [[]]) rest"
    using s2 s3 by (simp add: line_ends_def parse_reset_def)
  finally show ?thesis using True by (simp add: writerow_def)
next
  case False
  show ?thesis
  proof (cases "row = [[]]")
    case True
    let ?q = "set_state IN_QUOTED_FIELD parse_reset"
    let ?qq = "set_state QUOTE_IN_QUOTED_FIELD parse_reset"
    have s1: "parse_process_char parse_reset (Some dquote) = Some ?q"
      by (simp add: parse_process_char_def parse_reset_def start_field_def special_chars_distinct)
    have s2: "parse_process_char ?q (Some dquote) = Some ?qq"
      by (simp add: parse_process_char_def set_state_def)
    have "read_chars parse_reset rows (dquote # dquote # carriage_return # newline # rest) =
        read_chars ?q rows (dquote # carriage_return # newline # rest)"
      using s1 by (intro read_chars_inside) (simp_all add: line_ends_inside special_chars_distinct)
    also have "\<dots> = read_chars ?qq rows (carriage_return # newline # rest)"
      using s2 by (intro read_chars_inside) (simp_all add: line_ends_inside special_chars_distinct)
    also have "\<dots> = read_chars parse_reset (rows @ [rd_fields ?qq @ [rd_field ?qq]]) rest"
      by (intro read_line_end) simp
    finally show ?thesis using True by (simp add: writerow_def parse_reset_def)
  next
    case ne: False
    obtain f fs where row: "row = f # fs"
      using False by (cases row) auto
    let ?text = "join_fields (map write_field row) @ carriage_return # newline # rest"
    let ?r = "set_state START_FIELD parse_reset"
    obtain c cs where c: "?text = c # cs" "c \<noteq> newline" "c \<noteq> carriage_return"
      using written_row_start[OF False ne] by blast
    have "read_chars parse_reset rows ?text = read_chars ?r rows ?text"
      unfolding c(1) using c(2,3) by (rule read_record_start)
    also have "\<dots> = read_chars parse_reset (rows @ [rd_fields ?r @ f # fs]) rest"
      unfolding row using assms row by (intro read_fields) (simp_all add: parse_reset_def)
    finally have "read_chars parse_reset rows ?text = read_chars parse_reset (rows @ [row]) rest"
      using row by (simp add: parse_reset_def)
    moreover have "writerow row @ rest = ?text"
      using ne by (simp add: writerow_def)
    ultimately show ?thesis by simp
  qed
qed

lemma read_rows:
  assumes "\<forall>row\<in>set rs. \<forall>f\<in>set row. length f \<le> field_limit"
  shows "read_chars parse_reset rows (csv_writer rs @ rest) =
     read_chars parse_reset (rows @ rs) rest"
  using assms
proof (induction rs arbitrary: rows)
  case Nil
  then show ?case by (simp add: csv_writer_def)
next
  case (Cons row rs)
  have "read_chars parse_reset rows (writerow row @ csv_writer rs @ rest) =
      read_chars parse_reset (rows @ [row]) (csv_writer rs @ rest)"
    using Cons.prems by (intro read_row) simp
  also have "\<dots> = read_chars parse_reset ((rows @ [row]) @ rs) rest"
    using Cons.prems by (intro Cons.IH) simp
  finally show ?case by (simp add: csv_writer_def)
qed

text \<open>The reader reads back the records that the writer wrote.\<close>

lemma csv_reader_writer:
  assumes "\<forall>row\<in>set rs. \<forall>f\<in>set row. length f \<le> field_limit"
  shows "csv_reader (csv_writer rs) = Some rs"
  using read_rows[OF assms, of "[]" "[]"]
  by (simp add: csv_reader_def parse_reset_def)

text \<open>No field that the reader returns is longer than the field limit.\<close>

lemma parse_add_char_limit:
  assumes "parse_add_char r x = Some r'"
    and "length (rd_field r) \<le> field_limit"
    and "\<forall>f\<in>set (rd_fields r). length f \<le> field_limit"
  shows "length (rd_field r') \<le> field_limit \<and> (\<forall>f\<in>set (rd_fields r'). length f \<le> field_limit)"
proof -
  have "length (rd_field r) < field_limit" and "r' = r\<lparr>rd_field := rd_field r @ [x]\<rparr>"
    using assms(1) by (auto simp: parse_add_char_def split: if_splits)
  then show ?thesis using assms(3) by simp
qed

lemma parse_add_char_state_limit:
  assumes "map_option (set_state s) (parse_add_char r x) = Some r'"
    and "length (rd_field r) \<le> field_limit"
    and "\<forall>f\<in>set (rd_fields r). length f \<le> field_limit"
  shows "length (rd_field r') \<le> field_limit \<and> (\<forall>f\<in>set (rd_fields r'). length f \<le> field_limit)"
proof -
  from assms(1) obtain r1 where r1: "parse_add_char r x = Some r1" "r' = set_state s r1"
    by auto
  show ?thesis
    using parse_add_char_limit[OF r1(1) assms(2,3)] r1(2) by simp
qed

lemma parse_save_field_limit:
  assumes "length (rd_field r) \<le> field_limit"
    and "\<forall>f\<in>set (rd_fields r). length f \<le> field_limit"
  shows "length (rd_field (set_state s (parse_save_field r))) \<le> field_limit \<and>
     (\<forall>f\<in>set (rd_fields (set_state s (parse_save_field r))). length f \<le> field_limit)"
  using assms by simp

lemma start_field_limit:
  assumes "start_field r c = Some r'"
    and "length (rd_field r) \<le> field_limit"
    and "\<forall>f\<in>set (rd_fields r). length f \<le> field_limit"
  shows "length (rd_field r') \<le> field_limit \<and> (\<forall>f\<in>set (rd_fields r'). length f \<le> field_limit)"
proof (cases c)
  case None
  then have "r' = set_state START_RECORD (parse_save_field r)"
    using assms(1) by (simp add: start_field_def)
  then show ?thesis using parse_save_field_limit[OF assms(2,3)] by blast
next
  case (Some x)
  consider (eol) "x = newline \<or> x = carriage_return"
    | (quote) "\<not> (x = newline \<or> x = carriage_return)" "x = dquote"
    | (delim) "\<not> (x = newline \<or> x = carriage_return)" "x \<noteq> dquote" "x = comma"
    | (other) "\<not> (x = newline \<or> x = carriage_return)" "x \<noteq> dquote" "x \<noteq> comma"
    by blast
  then show ?thesis
  proof cases
    case eol
    then have "r' = set_state EAT_CRNL (parse_save_field r)"
      using assms(1) Some by (simp add: start_field_def)
    then show ?thesis using parse_save_field_limit[OF assms(2,3)] by blast
  next
    case quote
    then have "r' = set_state IN_QUOTED_FIELD r"
      using assms(1) Some by (simp add: start_field_def)
    then show ?thesis using assms(2,3) by simp
  next
    case delim
    then have "r' = set_state START_FIELD (parse_save_field r)"
      using assms(1) Some by (simp add: start_field_def)
    then show ?thesis using parse_save_field_limit[OF assms(2,3)] by blast
  next
    case other
    then have "map_option (set_state IN_FIELD) (parse_add_char r x) = Some r'"
      using assms(1) Some by (simp add: start_field_def)
    then show ?thesis using assms(2,3) by (rule parse_add_char_state_limit)
  qed
qed

lemma parse_process_char_limit:
  assumes "parse_process_char r c = Some r'"
    and "length (rd_field r) \<le> field_limit"
    and "\<forall>f\<in>set (rd_fields r). length f \<le> field_limit"
  shows "length (rd_field r') \<le> field_limit \<and> (\<forall>f\<in>set (rd_fields r'). length f \<le> field_limit)"
proof (cases "rd_state r")
  case START_RECORD
  then have "r' = r \<or> r' = set_state EAT_CRNL r \<or> start_field r c = Some r'"
    using assms(1) by (auto simp: parse_process_char_def split: option.splits if_splits)
  then show ?thesis
    using assms(2,3) start_field_limit[OF _ assms(2,3)] by auto
next
  case START_FIELD
  then have "start_field r c = Some r'"
    using assms(1) by (simp add: parse_process_char_def)
  then show ?thesis using assms(2,3) by (rule start_field_limit)
next
  case IN_FIELD
  then have "(\<exists>s. r' = set_state s (parse_save_field r)) \<or> (\<exists>x. parse_add_char r x = Some r')"
    using assms(1) by (auto simp: parse_process_char_def split: option.splits if_splits)
  then show ?thesis
    using parse_save_field_limit[OF assms(2,3)] parse_add_char_limit[OF _ assms(2,3)] by blast
next
  case IN_QUOTED_FIELD
  then have "r' = r \<or> r' = set_state QUOTE_IN_QUOTED_FIELD r \<or> (\<exists>x. parse_add_char r x = Some r')"
    using assms(1) by (auto simp: parse_process_char_def split: option.splits if_splits)
  then show ?thesis
    using assms(2,3) parse_add_char_limit[OF _ assms(2,3)] by auto
next
  case QUOTE_IN_QUOTED_FIELD
  then have "(\<exists>s. r' = set_state s (parse_save_field r)) \<or>
      (\<exists>s x. map_option (set_state s) (parse_add_char r x) = Some r')"
    using assms(1)
    by (simp add: parse_process_char_def split: option.splits if_splits) blast+
  then show ?thesis
    using parse_save_field_limit[OF assms(2,3)] parse_add_char_state_limit[OF _ assms(2,3)]
    by blast
next
  case EAT_CRNL
  then have "r' = set_state START_RECORD r \<or> r' = r"
    using assms(1) by (auto simp: parse_process_char_def split: option.splits if_splits)
  then show ?thesis using assms(2,3) by auto
qed

lemma read_chars_limit:
  assumes "read_chars r rows cs = Some out"
    and "length (rd_field r) \<le> field_limit"
    and "\<forall>f\<in>set (rd_fields r). length f \<le> field_limit"
    and "\<forall>row\<in>set rows. \<forall>f\<in>set row. length f \<le> field_limit"
  shows "\<forall>row\<in>set out. \<forall>f\<in>set row. length f \<le> field_limit"
  using assms
proof (induction cs arbitrary: r rows)
  case Nil
  have "out = rows \<or> out = rows @ [rd_fields r @ [rd_field r]]"
    using Nil.prems(1) by (simp split: if_splits)
  then show ?case
    using Nil.prems(2,3,4) by auto
next
  case (Cons c cs)
  show ?case
  proof (cases "parse_process_char r (Some c)")
    case None
    then show ?thesis using Cons.prems(1) by simp
  next
    case (Some r1)
    note ok1 = parse_process_char_limit[OF Some Cons.prems(2,3)]
    show ?thesis
    proof (cases "line_ends c cs")
      case False
      then have rc: "read_chars r1 rows cs = Some out"
        using Cons.prems(1) Some by simp
      show ?thesis
        by (rule Cons.IH[OF rc conjunct1[OF ok1] conjunct2[OF ok1] Cons.prems(4)])
    next
      case True
      show ?thesis
      proof (cases "parse_process_char r1 None")
        case None
        then show ?thesis using Cons.prems(1) Some True by simp
      next
        case r2: (Some r2)
        note ok2 = parse_process_char_limit[OF r2 conjunct1[OF ok1] conjunct2[OF ok1]]
        show ?thesis
        proof (cases "rd_state r2 = START_RECORD")
          case start: True
          have rc: "read_chars parse_reset (rows @ [rd_fields r2]) cs = Some out"
            using Cons.prems(1) Some True r2 start by simp
          have a: "length (rd_field parse_reset) \<le> field_limit"
            by (simp add: parse_reset_def)
          have b: "\<forall>f\<in>set (rd_fields parse_reset). length f \<le> field_limit"
            by (simp add: parse_reset_def)
          have c: "\<forall>row\<in>set (rows @ [rd_fields r2]). \<forall>f\<in>set row. length f \<le> field_limit"
            using ok2 Cons.prems(4) by simp
          show ?thesis
            by (rule Cons.IH[OF rc a b c])
        next
          case False
          have rc: "read_chars r2 rows cs = Some out"
            using Cons.prems(1) Some True r2 False by simp
          show ?thesis
            by (rule Cons.IH[OF rc conjunct1[OF ok2] conjunct2[OF ok2] Cons.prems(4)])
        qed
      qed
    qed
  qed
qed

lemma csv_reader_limit:
  "csv_reader content = Some rows \<Longrightarrow> \<forall>row\<in>set rows. \<forall>f\<in>set row. length f \<le> field_limit"
  using read_chars_limit[of parse_reset "[]" content rows]
  by (simp add: csv_reader_def parse_reset_def)

section \<open>Deduplication of the file's content\<close>

text \<open>On a content that the reader accepts, \<open>deduplicate_csv_file\<close> is \<open>deduplicate_csv\<close> on
  the records read, written back by the writer.\<close>

lemma deduplicate_csv_file_records:
  assumes "csv_reader content = Some (header # data)"
  shows "deduplicate_csv_file (Some content) =
     (map_option csv_writer (fst (deduplicate_csv (Some (header # data)))),
      snd (deduplicate_csv (Some (header # data))))"
  using assms by (simp add: deduplicate_csv_file_def deduplicate_csv_def Let_def)

lemma deduplicate_csv_file_result:
  assumes "csv_reader content = Some (header # data)"
  shows "fst (deduplicate_csv_file (Some content)) =
       Some (writerow header @ csv_writer (unique_loop data [] {}))
     \<and> csv_reader (writerow header @ csv_writer (unique_loop data [] {})) =
       Some (header # unique_loop data [] {})"
proof -
  let ?u = "unique_loop data [] {}"
  have lim: "\<forall>row\<in>set (header # data). \<forall>f\<in>set row. length f \<le> field_limit"
    using assms by (rule csv_reader_limit)
  have "set ?u = set data"
    using unique_loop_set[of data "[]" "{}"] by simp
  then have "\<forall>row\<in>set (header # ?u). \<forall>f\<in>set row. length f \<le> field_limit"
    using lim by simp
  then have "csv_reader (csv_writer (header # ?u)) = Some (header # ?u)"
    by (rule csv_reader_writer)
  moreover have "fst (deduplicate_csv_file (Some content)) = Some (csv_writer (header # ?u))"
    using assms by (simp add: deduplicate_csv_file_def Let_def)
  ultimately show ?thesis by (simp add: csv_writer_def)
qed

lemma deduplicate_csv_file_fixed:
  "deduplicate_csv_file (fst (deduplicate_csv_file f)) = (fst (deduplicate_csv_file f), 0)"
proof (cases f)
  case None
  then show ?thesis by (simp add: deduplicate_csv_file_def)
next
  case (Some content)
  show ?thesis
  proof (cases "csv_reader content")
    case None
    then show ?thesis using Some by (simp add: deduplicate_csv_file_def)
  next
    case rows: (Some rows)
    show ?thesis
    proof (cases rows)
      case Nil
      then show ?thesis using Some rows by (simp add: deduplicate_csv_file_def)
    next
      case (Cons header data)
      let ?u = "unique_loop data [] {}"
      let ?after = "writerow header @ csv_writer ?u"
      have r: "csv_reader content = Some (header # data)"
        using rows Cons by simp
      have first: "fst (deduplicate_csv_file f) = Some ?after"
        and reread: "csv_reader ?after = Some (header # ?u)"
        using deduplicate_csv_file_result[OF r] Some by simp_all
      have "distinct ?u"
        using unique_loop_distinct[of "[]" "{}" data] by simp
      then have again: "unique_loop ?u [] {} = ?u"
        using unique_loop_id[of ?u "{}" "[]"] by simp
      have "deduplicate_csv_file (Some ?after) = (Some (csv_writer (header # ?u)), 0)"
        using reread again by (simp add: deduplicate_csv_file_def Let_def)
      then show ?thesis
        using first by (simp add: csv_writer_def)
    qed
  qed
qed

lemma header_line_prefix:
  "header_line (a @ newline # x) = header_line (a @ [newline])"
proof (induction a)
  case Nil
  then show ?case by (simp add: line_ends_def)
next
  case (Cons c a)
  have "line_ends c (a @ newline # x) = line_ends c (a @ [newline])"
    by (cases a) (simp_all add: line_ends_def)
  then show ?case using Cons by simp
qed

lemma header_line_writerow:
  "header_line (writerow header @ x) = header_line (writerow header)"
proof -
  obtain a where a: "writerow header = a @ [newline]"
    by (simp add: writerow_def)
  have "header_line ((a @ [newline]) @ x) = header_line (a @ [newline])"
    using header_line_prefix[of a x] by simp
  then show ?thesis using a by simp
qed

text \<open>
  Claim C4, as stated, fails: the header line is not always the same bytes after a run.
  A file whose lines end with LF comes back with lines that end with CR LF, and a header
  line with a quoted cell that needs no quotes comes back without the quotes.
\<close>

theorem header_line_counterexample:
  "deduplicate_csv_file (Some ''a,b\<newline>1,2\<newline>'') =
     (Some (''a,b'' @ [carriage_return, newline] @ ''1,2'' @ [carriage_return, newline]), 0)
   \<and> header_line ''a,b\<newline>1,2\<newline>'' = ''a,b\<newline>''
   \<and> header_line (''a,b'' @ [carriage_return, newline] @ ''1,2'' @ [carriage_return, newline]) =
       ''a,b'' @ [carriage_return, newline]
   \<and> ''a,b\<newline>'' \<noteq> ''a,b'' @ [carriage_return, newline]
   \<and> deduplicate_csv_file
       (Some ([dquote] @ ''a'' @ [dquote] @ '',b'' @ [carriage_return, newline]
              @ ''1,2'' @ [carriage_return, newline])) =
     (Some (''a,b'' @ [carriage_return, newline] @ ''1,2'' @ [carriage_return, newline]), 0)
   \<and> header_line ([dquote] @ ''a'' @ [dquote] @ '',b'' @ [carriage_return, newline]
              @ ''1,2'' @ [carriage_return, newline]) =
       [dquote] @ ''a'' @ [dquote] @ '',b'' @ [carriage_return, newline]
   \<and> [dquote] @ ''a'' @ [dquote] @ '',b'' @ [carriage_return, newline] \<noteq>
       ''a,b'' @ [carriage_return, newline]"
  by (simp add: deduplicate_csv_file_def csv_reader_def parse_reset_def parse_process_char_def
      start_field_def parse_add_char_def parse_save_field_def set_state_def line_ends_def
      field_limit_def newline_def carriage_return_def comma_def dquote_def csv_writer_def
      writerow_def write_field_def needs_quotes_def double_quotes_def)

text \<open>
  Claim C4, amended. Deduplication is idempotent on the content of every file (also one
  that is missing, empty or refused by the reader): a second run returns 0 and leaves the
  content as the first run wrote it. A run keeps the header record: the content after it
  starts with the writer's line for the header record, and reads back with that header.
  So the header line is the same bytes before and after a run whenever it is the
  writer's line for the header record, as in a file that the writer wrote.
\<close>

theorem deduplicate_file_idempotent:
  "snd (deduplicate_csv_file (fst (deduplicate_csv_file f))) = 0
   \<and> fst (deduplicate_csv_file (fst (deduplicate_csv_file f))) = fst (deduplicate_csv_file f)
   \<and> (csv_reader content = Some (header # data) \<longrightarrow>
        (\<exists>kept. fst (deduplicate_csv_file (Some content)) = Some (writerow header @ csv_writer kept) \<and>
           csv_reader (writerow header @ csv_writer kept) = Some (header # kept)))
   \<and> (csv_reader (writerow header @ tail) = Some (header # data) \<longrightarrow>
        (\<exists>after. fst (deduplicate_csv_file (Some (writerow header @ tail))) = Some after \<and>
           header_line after = header_line (writerow header @ tail)))"
proof -
  have a: "snd (deduplicate_csv_file (fst (deduplicate_csv_file f))) = 0
     \<and> fst (deduplicate_csv_file (fst (deduplicate_csv_file f))) = fst (deduplicate_csv_file f)"
    by (simp add: deduplicate_csv_file_fixed)
  have b: "csv_reader content = Some (header # data) \<longrightarrow>
        (\<exists>kept. fst (deduplicate_csv_file (Some content)) = Some (writerow header @ csv_writer kept) \<and>
           csv_reader (writerow header @ csv_writer kept) = Some (header # kept))"
    using deduplicate_csv_file_result by blast
  have c: "csv_reader (writerow header @ tail) = Some (header # data) \<longrightarrow>
        (\<exists>after. fst (deduplicate_csv_file (Some (writerow header @ tail))) = Some after \<and>
           header_line after = header_line (writerow header @ tail))"
  proof
    assume "csv_reader (writerow header @ tail) = Some (header # data)"
    then have "fst (deduplicate_csv_file (Some (writerow header @ tail))) =
        Some (writerow header @ csv_writer (unique_loop data [] {}))"
      using deduplicate_csv_file_result by blast
    moreover have "header_line (writerow header @ csv_writer (unique_loop data [] {})) =
        header_line (writerow header @ tail)"
      by (simp add: header_line_writerow)
    ultimately show "\<exists>after. fst (deduplicate_csv_file (Some (writerow header @ tail))) = Some after \<and>
           header_line after = header_line (writerow header @ tail)"
      by blast
  qed
  show ?thesis using a b c by blast
qed

theorem deduplicate_file_idempotent_witness:
  "csv_reader (''a,b'' @ [carriage_return, newline] @ ''1,2'' @ [carriage_return, newline]
       @ ''1,2'' @ [carriage_return, newline]) = Some [[''a'', ''b''], [''1'', ''2''], [''1'', ''2'']]
   \<and> deduplicate_csv_file (Some (''a,b'' @ [carriage_return, newline] @ ''1,2''
       @ [carriage_return, newline] @ ''1,2'' @ [carriage_return, newline])) =
     (Some (''a,b'' @ [carriage_return, newline] @ ''1,2'' @ [carriage_return, newline]), 1)
   \<and> deduplicate_csv_file
       (Some (''a,b'' @ [carriage_return, newline] @ ''1,2'' @ [carriage_return, newline])) =
     (Some (''a,b'' @ [carriage_return, newline] @ ''1,2'' @ [carriage_return, newline]), 0)
   \<and> header_line (''a,b'' @ [carriage_return, newline] @ ''1,2'' @ [carriage_return, newline]) =
     header_line (''a,b'' @ [carriage_return, newline] @ ''1,2'' @ [carriage_return, newline]
       @ ''1,2'' @ [carriage_return, newline])"
proof -
  let ?before = "''a,b'' @ [carriage_return, newline] @ ''1,2'' @ [carriage_return, newline]
       @ ''1,2'' @ [carriage_return, newline]"
  let ?after = "''a,b'' @ [carriage_return, newline] @ ''1,2'' @ [carriage_return, newline]"
  let ?tail = "''1,2'' @ [carriage_return, newline] @ ''1,2'' @ [carriage_return, newline]"
  have r: "csv_reader ?before = Some [[''a'', ''b''], [''1'', ''2''], [''1'', ''2'']]"
    by (simp add: csv_reader_def parse_reset_def parse_process_char_def
      start_field_def parse_add_char_def parse_save_field_def set_state_def line_ends_def
      field_limit_def newline_def carriage_return_def comma_def dquote_def)
  have d: "deduplicate_csv_file (Some ?before) = (Some ?after, 1)"
    by (simp add: deduplicate_csv_file_def csv_reader_def parse_reset_def parse_process_char_def
      start_field_def parse_add_char_def parse_save_field_def set_state_def line_ends_def
      field_limit_def newline_def carriage_return_def comma_def dquote_def csv_writer_def
      writerow_def write_field_def needs_quotes_def double_quotes_def)
  have w: "writerow [''a'', ''b''] @ ?tail = ?before"
    by (simp add: writerow_def write_field_def needs_quotes_def
        newline_def carriage_return_def comma_def dquote_def)
  note th = deduplicate_file_idempotent[of "Some ?before" ?before "[''a'', ''b'']"
      "[[''1'', ''2''], [''1'', ''2'']]" ?tail]
  have two: "deduplicate_csv_file (Some ?after) = (Some ?after, 0)"
    using th[THEN conjunct1] th[THEN conjunct2, THEN conjunct1] unfolding d
    by (simp add: prod_eq_iff)
  have "\<exists>after. fst (deduplicate_csv_file (Some (writerow [''a'', ''b''] @ ?tail))) = Some after \<and>
      header_line after = header_line (writerow [''a'', ''b''] @ ?tail)"
    using th[THEN conjunct2, THEN conjunct2, THEN conjunct2] r unfolding w by blast
  then have h: "header_line ?after = header_line ?before"
    unfolding w d by simp
  show ?thesis using r d two h by blast
qed

end
